theory Spec2Isabelle
  imports
    Main
    "HOL-Library.Word"
    "HOL-Library.Multiset"
    "HOL-Library.Char_ord"
    "HOL-Library.List_Lexorder"
begin

unbundle bit_operations_syntax

section \<open>The MapReduce engine of mapreduce.c and threadpool.c\<close>

text \<open>
  The embedding follows the C sources function by function.

  \<^item> A C string (a non-null \<open>char *\<close> to NUL-terminated bytes) is a \<open>string\<close>: the list of
    its bytes before the terminating NUL. A pointer argument that may be \<open>NULL\<close> is a
    \<open>string option\<close>, \<open>None\<close> for \<open>NULL\<close>.
  \<^item> \<open>unsigned int\<close> is \<open>32 word\<close>, \<open>unsigned long\<close> and \<open>size_t\<close> are \<open>64 word\<close>
    (the LP64 data model of the POSIX systems the code is written for).
  \<^item> Whether plain \<open>char\<close> is signed is implementation-defined in C (signed on x86-64,
    unsigned on AArch64 Linux); the functions that read a \<open>char\<close> as an \<open>int\<close> take it as
    their first argument \<open>sc\<close> (\<open>True\<close>: plain \<open>char\<close> is signed).
  \<^item> A singly linked list (the \<open>next\<close> pointers of \<open>KVPair\<close> and \<open>ThreadPool_job_t\<close>) is a
    HOL list, its head first.
  \<^item> Every function body that runs under a mutex is one atomic state transformer.
    \<open>malloc\<close> and \<open>strdup\<close> are taken to succeed, as the code takes them.
\<close>

subsection \<open>Library functions of \<open>string.h\<close>\<close>

text \<open>
  \<open>strcmp\<close> compares byte by byte, the bytes read as \<open>unsigned char\<close>; only the sign of
  its result is specified, here it is \<open>-1\<close>, \<open>0\<close> or \<open>1\<close>. A string that ends first is
  smaller (its NUL is below every byte).
\<close>

fun strcmp :: "string \<Rightarrow> string \<Rightarrow> int" where
  "strcmp [] [] = 0"
| "strcmp [] (b # bs) = - 1"
| "strcmp (a # as) [] = 1"
| "strcmp (a # as) (b # bs) =
     (if (of_char a :: nat) < of_char b then - 1
      else if (of_char b :: nat) < of_char a then 1
      else strcmp as bs)"

definition strlen :: "string \<Rightarrow> 64 word" where
  "strlen s = of_nat (length s)"

definition strdup :: "string \<Rightarrow> string" where
  "strdup s = s"

subsection \<open>The partitioner\<close>

text \<open>\<open>int c = *key++\<close>: the byte read through a plain \<open>char *\<close>, promoted to \<open>int\<close>.\<close>

definition char_to_int :: "bool \<Rightarrow> char \<Rightarrow> 32 word" where
  "char_to_int sc ch =
     (if sc then scast (of_char ch :: 8 word) else ucast (of_char ch :: 8 word))"

text \<open>
  The loop of \<open>MR_Partitioner\<close>: \<open>hash = ((hash << 5) + hash) + c\<close> in \<open>unsigned long\<close>;
  the \<open>int c\<close> is converted to \<open>unsigned long\<close>, which keeps its value modulo \<open>2^64\<close>.
\<close>

fun MR_Partitioner_loop :: "bool \<Rightarrow> 64 word \<Rightarrow> string \<Rightarrow> 64 word" where
  "MR_Partitioner_loop sc hash [] = hash"
| "MR_Partitioner_loop sc hash (ch # key) =
     (let c = char_to_int sc ch
      in MR_Partitioner_loop sc ((push_bit 5 hash + hash) + scast c) key)"

text \<open>
  \<open>return hash % num_partitions\<close>: the remainder in \<open>unsigned long\<close>, returned as
  \<open>unsigned int\<close>. With \<open>num_partitions = 0\<close> the division traps (undefined behaviour):
  \<open>None\<close>.
\<close>

definition MR_Partitioner :: "bool \<Rightarrow> string \<Rightarrow> 32 word \<Rightarrow> 32 word option" where
  "MR_Partitioner sc key num_partitions =
     (let hash = MR_Partitioner_loop sc 5381 key
      in if num_partitions = 0 then None
         else Some (ucast (hash mod ucast num_partitions)))"

text \<open>
  The hash as the specification words it: start with 5381; for each byte \<open>c\<close> of the key
  (a value from 0 to 255), \<open>h = h * 33 + c\<close> in unsigned (64-bit) arithmetic; the result
  modulo \<open>P\<close>.
\<close>

definition djb2_spec :: "string \<Rightarrow> 64 word" where
  "djb2_spec key = foldl (\<lambda>h c. h * 33 + of_char c) 5381 key"

definition partitioner_spec :: "string \<Rightarrow> 32 word \<Rightarrow> nat" where
  "partitioner_spec key P = unat (djb2_spec key) mod unat P"

subsection \<open>The partition store\<close>

text \<open>
  \<open>struct KVPair\<close>: the fields \<open>key\<close> and \<open>value\<close> (here \<open>val\<close>); the \<open>next\<close> pointer is
  the list the pair stands in.
\<close>

record KVPair =
  key :: string
  val :: string

text \<open>\<open>Partition\<close>: the list at \<open>head\<close> and the counter \<open>bytes\<close> (a \<open>size_t\<close>).\<close>

record Partition =
  head :: "KVPair list"
  bytes :: "64 word"

text \<open>
  The globals \<open>partitions\<close> and \<open>num_partitions\<close>. The array is a function of the index;
  the code reads and writes it below \<open>num_partitions\<close> only.
\<close>

record MR_state =
  partitions :: "32 word \<Rightarrow> Partition"
  num_partitions :: "32 word"

text \<open>
  The start of \<open>MR_Run\<close>: \<open>num_partitions = num_parts\<close>, every partition with
  \<open>head = NULL\<close> and \<open>bytes = 0\<close>.
\<close>

definition MR_Run_init :: "32 word \<Rightarrow> MR_state" where
  "MR_Run_init num_parts =
     \<lparr>partitions = (\<lambda>i. \<lparr>head = [], bytes = 0\<rparr>), num_partitions = num_parts\<rparr>"

text \<open>
  The \<open>while\<close> loop of \<open>insert_sorted\<close> and the splice after it. The first argument is
  the list at \<open>curr->next\<close>; the result is that list with \<open>pair\<close> linked in.
\<close>

fun insert_sorted_walk :: "KVPair list \<Rightarrow> KVPair \<Rightarrow> KVPair list" where
  "insert_sorted_walk [] pair = [pair]"
| "insert_sorted_walk (n # rest) pair =
     (if strcmp (key n) (key pair) < 0 then n # insert_sorted_walk rest pair
      else pair # n # rest)"

definition insert_sorted :: "Partition \<Rightarrow> KVPair \<Rightarrow> Partition" where
  "insert_sorted part pair =
     (case head part of
        [] \<Rightarrow> part\<lparr>head := [pair]\<rparr>
      | h # rest \<Rightarrow>
          if strcmp (key h) (key pair) \<ge> 0 then part\<lparr>head := pair # h # rest\<rparr>
          else part\<lparr>head := h # insert_sorted_walk rest pair\<rparr>)"

text \<open>
  \<open>MR_Emit\<close>. The guard \<open>!key || !value || num_partitions == 0\<close> returns at once; the
  partitioner cannot trap after it.
\<close>

definition MR_Emit :: "bool \<Rightarrow> MR_state \<Rightarrow> string option \<Rightarrow> string option \<Rightarrow> MR_state" where
  "MR_Emit sc s k v =
     (case (k, v) of
        (Some k', Some v') \<Rightarrow>
          if num_partitions s = 0 then s
          else (case MR_Partitioner sc k' (num_partitions s) of
                  None \<Rightarrow> s
                | Some idx \<Rightarrow>
                    let part = partitions s idx;
                        key_copy = strdup k';
                        val_copy = strdup v';
                        pair = \<lparr>key = key_copy, val = val_copy\<rparr>;
                        part = insert_sorted part pair;
                        part = part\<lparr>bytes :=
                          bytes part + (strlen key_copy + strlen val_copy + 2)\<rparr>
                    in s\<lparr>partitions := (partitions s)(idx := part)\<rparr>)
      | _ \<Rightarrow> s)"

text \<open>\<open>MR_GetNext\<close>: the returned value (\<open>None\<close> for \<open>NULL\<close>) and the state after the call.\<close>

definition MR_GetNext :: "MR_state \<Rightarrow> string option \<Rightarrow> 32 word \<Rightarrow> string option \<times> MR_state" where
  "MR_GetNext s k partition_idx =
     (case k of
        None \<Rightarrow> (None, s)
      | Some k' \<Rightarrow>
          if partition_idx \<ge> num_partitions s then (None, s)
          else (let part = partitions s partition_idx
                in case head part of
                     [] \<Rightarrow> (None, s)
                   | pair # rest \<Rightarrow>
                       if strcmp (key pair) k' \<noteq> 0 then (None, s)
                       else (Some (val pair),
                             s\<lparr>partitions :=
                                 (partitions s)(partition_idx := part\<lparr>head := rest\<rparr>)\<rparr>)))"

text \<open>
  The loop of the reducer in distwc.c, \<open>while ((value = MR_GetNext(key, partition_idx)) != NULL)\<close>:
  the values it obtains, in order, and the state when \<open>MR_GetNext\<close> returns \<open>NULL\<close>.
\<close>

function drain :: "MR_state \<Rightarrow> string \<Rightarrow> 32 word \<Rightarrow> string list \<times> MR_state" where
  "drain s k partition_idx =
     (case MR_GetNext s (Some k) partition_idx of
        (None, s') \<Rightarrow> ([], s')
      | (Some v, s') \<Rightarrow> (case drain s' k partition_idx of (vs, s'') \<Rightarrow> (v # vs, s'')))"
  by pat_completeness auto
termination
  by (relation "measure (\<lambda>(s, k, i). length (head (partitions s i)))")
     (auto simp add: MR_GetNext_def Let_def split: option.splits list.splits if_splits)

declare drain.simps [simp del]

text \<open>
  A run of the engine's two entry points: the calls made, in the order in which they
  take effect. \<open>MR_exec\<close> performs them and logs every \<open>MR_GetNext\<close> call that returned a
  value, with that value.
\<close>

datatype MR_call = Emit "string option" "string option" | GetNext "string option" "32 word"

fun MR_exec :: "bool \<Rightarrow> MR_state \<Rightarrow> MR_call list \<Rightarrow> (MR_call \<times> string) list \<times> MR_state" where
  "MR_exec sc s [] = ([], s)"
| "MR_exec sc s (Emit k v # calls) = MR_exec sc (MR_Emit sc s k v) calls"
| "MR_exec sc s (GetNext k i # calls) =
     (case MR_GetNext s k i of
        (None, s') \<Rightarrow> MR_exec sc s' calls
      | (Some v, s') \<Rightarrow>
          (case MR_exec sc s' calls of (log, s'') \<Rightarrow> ((GetNext k i, v) # log, s'')))"

text \<open>The values passed to \<open>MR_Emit\<close> with key \<open>k\<close> and both arguments non-null.\<close>

fun emitted :: "string \<Rightarrow> MR_call list \<Rightarrow> string list" where
  "emitted k [] = []"
| "emitted k (Emit (Some k') (Some v) # calls) =
     (if k' = k then v # emitted k calls else emitted k calls)"
| "emitted k (c # calls) = emitted k calls"

text \<open>The values that the logged calls \<open>MR_GetNext(k, p)\<close> returned.\<close>

definition returned :: "string \<Rightarrow> 32 word \<Rightarrow> (MR_call \<times> string) list \<Rightarrow> string list" where
  "returned k p log = map snd (filter (\<lambda>(c, v). c = GetNext (Some k) p) log)"

text \<open>\<open>strlen(key) + strlen(value) + 2\<close>, the bytes \<open>MR_Emit\<close> accounts for one pair.\<close>

definition pair_bytes :: "KVPair \<Rightarrow> nat" where
  "pair_bytes pair = length (key pair) + length (val pair) + 2"

text \<open>
  The pairs that the logged \<open>MR_GetNext\<close> calls took out of partition \<open>p\<close>: the key of
  such a pair is the key asked for (\<open>strcmp\<close> found them equal), its value the one returned.
\<close>

fun removed :: "32 word \<Rightarrow> (MR_call \<times> string) list \<Rightarrow> KVPair list" where
  "removed p [] = []"
| "removed p ((GetNext (Some k) i, v) # log) =
     (if i = p then \<lparr>key = k, val = v\<rparr> # removed p log else removed p log)"
| "removed p (e # log) = removed p log"

subsection \<open>The job queue and the pool\<close>

text \<open>
  threadpool.h is not among the sources. The records have the fields threadpool.c uses:
  \<open>func\<close> and \<open>arg\<close> are pointers (addresses), \<open>job_size\<close> is the \<open>size_t\<close> that
  \<open>ThreadPool_add_job\<close> stores. The C type of the counter \<open>size\<close> is declared in the
  header: it is the type parameter \<open>'n\<close>, an integer type of any width in every function
  below. The record \<open>ThreadPool_t\<close> has the queue \<open>jobs\<close> and the flag \<open>stop\<close>; the counter
  \<open>active_workers\<close> stands beside it in the record \<open>pool_run\<close> further down. The thread
  handles, \<open>num_threads\<close>, the mutex and the condition variables are left out: each
  function below is a stretch of code that runs with the pool's lock held.
\<close>

record ThreadPool_job_t =
  func :: "64 word"
  arg :: "64 word"
  job_size :: "64 word"

record 'n ThreadPool_job_queue_t =
  q_size :: 'n
  q_head :: "ThreadPool_job_t list"

record 'n ThreadPool_t =
  jobs :: "'n ThreadPool_job_queue_t"
  stop :: bool

text \<open>The \<open>while\<close> loop of \<open>add_job_to_queue\<close> and the splice, as for \<open>insert_sorted\<close>.\<close>

fun add_job_walk :: "ThreadPool_job_t list \<Rightarrow> ThreadPool_job_t \<Rightarrow> ThreadPool_job_t list" where
  "add_job_walk [] job = [job]"
| "add_job_walk (n # rest) job =
     (if job_size n < job_size job then n # add_job_walk rest job else job # n # rest)"

definition add_job_to_queue ::
  "('w::len) word ThreadPool_job_queue_t \<Rightarrow> ThreadPool_job_t \<Rightarrow> 'w word ThreadPool_job_queue_t" where
  "add_job_to_queue q job =
     (let q = (case q_head q of
                 [] \<Rightarrow> q\<lparr>q_head := [job]\<rparr>
               | h # rest \<Rightarrow>
                   if job_size h \<ge> job_size job then q\<lparr>q_head := job # h # rest\<rparr>
                   else q\<lparr>q_head := h # add_job_walk rest job\<rparr>)
      in q\<lparr>q_size := q_size q + 1\<rparr>)"

text \<open>\<open>ThreadPool_create\<close>: \<open>NULL\<close> for no threads, else a pool with an empty queue.\<close>

definition ThreadPool_create :: "32 word \<Rightarrow> ('w::len) word ThreadPool_t option" where
  "ThreadPool_create num =
     (if num = 0 then None
      else Some \<lparr>jobs = \<lparr>q_size = 0, q_head = []\<rparr>, stop = False\<rparr>)"

text \<open>\<open>ThreadPool_add_job\<close>: the returned \<open>bool\<close> and the pool after the call.\<close>

definition ThreadPool_add_job ::
  "('w::len) word ThreadPool_t \<Rightarrow> 64 word \<Rightarrow> 64 word \<Rightarrow> 64 word \<Rightarrow> bool \<times> 'w word ThreadPool_t" where
  "ThreadPool_add_job tp f a sz =
     (let job = \<lparr>func = f, arg = a, job_size = sz\<rparr>
      in if stop tp then (False, tp)
         else (True, tp\<lparr>jobs := add_job_to_queue (jobs tp) job\<rparr>))"

text \<open>\<open>ThreadPool_get_job\<close>: the job taken (\<open>None\<close> for \<open>NULL\<close>) and the pool after the call.\<close>

definition ThreadPool_get_job ::
  "('w::len) word ThreadPool_t \<Rightarrow> ThreadPool_job_t option \<times> 'w word ThreadPool_t" where
  "ThreadPool_get_job tp =
     (case q_head (jobs tp) of
        [] \<Rightarrow> (None, tp)
      | job # rest \<Rightarrow>
          (Some job, tp\<lparr>jobs := (jobs tp)\<lparr>q_head := rest, q_size := q_size (jobs tp) - 1\<rparr>\<rparr>))"

text \<open>A sequence of the two queue operations on a pool.\<close>

datatype queue_op = Add_job ThreadPool_job_t | Get_job

fun queue_ops :: "('w::len) word ThreadPool_t \<Rightarrow> queue_op list \<Rightarrow> 'w word ThreadPool_t" where
  "queue_ops tp [] = tp"
| "queue_ops tp (Add_job job # ops) =
     queue_ops (tp\<lparr>jobs := add_job_to_queue (jobs tp) job\<rparr>) ops"
| "queue_ops tp (Get_job # ops) = queue_ops (snd (ThreadPool_get_job tp)) ops"

subsection \<open>The pool at work\<close>

text \<open>
  The threads of the pool touch its state only between \<open>pthread_mutex_lock(&tp->lock)\<close>
  and the matching unlock (\<open>pthread_cond_wait\<close> gives the lock up and takes it again
  before it returns), so a run of the pool is a sequence of these critical sections,
  each an atomic step. The state is the pool, the counter \<open>active_workers\<close> (its C type,
  declared in threadpool.h, is the type parameter \<open>'m\<close>) and three records that the code
  does not keep: the jobs \<open>ThreadPool_add_job\<close> accepted, the jobs that a worker has taken
  and is running, and the jobs whose user function has returned.
\<close>

record ('n, 'm) pool_run =
  pool :: "'n ThreadPool_t"
  active_workers :: 'm
  accepted :: "ThreadPool_job_t multiset"
  running :: "ThreadPool_job_t multiset"
  finished :: "ThreadPool_job_t multiset"

text \<open>
  \<open>ThreadPool_create\<close> with \<open>active_workers = 0\<close>; nothing accepted, running or finished.
\<close>

definition pool_start :: "32 word \<Rightarrow> (('w::len) word, ('a::len) word) pool_run option" where
  "pool_start num =
     (case ThreadPool_create num of
        None \<Rightarrow> None
      | Some tp \<Rightarrow>
          Some \<lparr>pool = tp, active_workers = 0, accepted = {#}, running = {#}, finished = {#}\<rparr>)"

text \<open>A call of \<open>ThreadPool_add_job\<close>; the job counts as accepted when it returns \<open>true\<close>.\<close>

definition submit ::
  "(('w::len) word, ('a::len) word) pool_run \<Rightarrow> 64 word \<Rightarrow> 64 word \<Rightarrow> 64 word
     \<Rightarrow> ('w word, 'a word) pool_run" where
  "submit s f a sz =
     (case ThreadPool_add_job (pool s) f a sz of
        (ok, tp) \<Rightarrow>
          s\<lparr>pool := tp,
            accepted := (if ok then add_mset \<lparr>func = f, arg = a, job_size = sz\<rparr> (accepted s)
                         else accepted s)\<rparr>)"

text \<open>
  \<open>Thread_run\<close> from taking the lock to \<open>job->func(job->arg)\<close>. The worker gets past
  \<open>while (tp->jobs.size == 0 && !tp->stop)\<close> only when that condition is false: otherwise
  the step does not take place (\<open>None\<close>). With \<open>stop\<close> set and \<open>size == 0\<close> the thread ends
  and changes nothing; when \<open>ThreadPool_get_job\<close> returns \<open>NULL\<close> it goes round again;
  else it counts itself in \<open>active_workers\<close> and runs the job.
\<close>

definition Thread_run_take ::
  "(('w::len) word, ('a::len) word) pool_run \<Rightarrow> ('w word, 'a word) pool_run option" where
  "Thread_run_take s =
     (if q_size (jobs (pool s)) = 0 \<and> \<not> stop (pool s) then None
      else if stop (pool s) \<and> q_size (jobs (pool s)) = 0 then Some s
      else (case ThreadPool_get_job (pool s) of
              (None, tp) \<Rightarrow> Some (s\<lparr>pool := tp\<rparr>)
            | (Some job, tp) \<Rightarrow>
                Some (s\<lparr>pool := tp, active_workers := active_workers s + 1,
                        running := add_mset job (running s)\<rparr>)))"

text \<open>
  \<open>Thread_run\<close> after \<open>job->func(job->arg)\<close> has returned, for a job that is running: the
  lock is taken and \<open>active_workers\<close> counted down. For a job that is not running the step
  does not take place.
\<close>

definition Thread_run_finish ::
  "(('w::len) word, ('a::len) word) pool_run \<Rightarrow> ThreadPool_job_t
     \<Rightarrow> ('w word, 'a word) pool_run option" where
  "Thread_run_finish s job =
     (if job \<in># running s
      then Some (s\<lparr>active_workers := active_workers s - 1,
                   running := running s - {#job#},
                   finished := add_mset job (finished s)\<rparr>)
      else None)"

text \<open>The critical section of \<open>ThreadPool_destroy\<close>: \<open>tp->stop = true\<close>.\<close>

definition ThreadPool_destroy_stop ::
  "(('w::len) word, ('a::len) word) pool_run \<Rightarrow> ('w word, 'a word) pool_run" where
  "ThreadPool_destroy_stop s = s\<lparr>pool := (pool s)\<lparr>stop := True\<rparr>\<rparr>"

text \<open>
  The condition of the loop of \<open>ThreadPool_check\<close>,
  \<open>tp->jobs.size > 0 || tp->active_workers > 0\<close>, read with the lock held.
  \<open>ThreadPool_check\<close> changes nothing and returns from a state where it is false.
\<close>

definition ThreadPool_check_waits :: "(('w::len) word, ('a::len) word) pool_run \<Rightarrow> bool" where
  "ThreadPool_check_waits s \<longleftrightarrow> q_size (jobs (pool s)) > 0 \<or> active_workers s > 0"

text \<open>
  The steps of a run, by any thread and in any order: \<open>Submit\<close> is a call of
  \<open>ThreadPool_add_job\<close>, \<open>Take\<close> and \<open>Finish\<close> are the two critical sections of a worker,
  \<open>Stop\<close> is that of \<open>ThreadPool_destroy\<close>. \<open>pool_events\<close> is \<open>None\<close> when a step of the
  list cannot take place in the state reached.
\<close>

datatype pool_event =
    Submit "64 word" "64 word" "64 word"
  | Take
  | Finish ThreadPool_job_t
  | Stop

fun pool_step ::
  "(('w::len) word, ('a::len) word) pool_run \<Rightarrow> pool_event \<Rightarrow> ('w word, 'a word) pool_run option" where
  "pool_step s (Submit f a sz) = Some (submit s f a sz)"
| "pool_step s Take = Thread_run_take s"
| "pool_step s (Finish job) = Thread_run_finish s job"
| "pool_step s Stop = Some (ThreadPool_destroy_stop s)"

fun pool_events ::
  "(('w::len) word, ('a::len) word) pool_run \<Rightarrow> pool_event list
     \<Rightarrow> ('w word, 'a word) pool_run option" where
  "pool_events s [] = Some s"
| "pool_events s (ev # evs) =
     (case pool_step s ev of None \<Rightarrow> None | Some s' \<Rightarrow> pool_events s' evs)"

section \<open>Properties\<close>

subsection \<open>Bytes as integers\<close>

lemma sint_byte: "sint (w :: 8 word) = (if 128 \<le> uint w then uint w - 256 else uint w)"
proof -
  have s: "sint w = (uint w + 128) mod 256 - 128"
    by (simp add: sint_uint signed_take_bit_eq_take_bit_shift take_bit_eq_mod)
  have b: "0 \<le> uint w" "uint w < 256"
    using uint_bounded[of w] by simp_all
  show ?thesis
  proof (cases "128 \<le> uint w")
    case True
    have "uint w + 128 = (uint w - 128) + 256" by simp
    then have "(uint w + 128) mod 256 = ((uint w - 128) + 256) mod 256" by (rule arg_cong)
    also have "\<dots> = (uint w - 128) mod 256" by (simp only: mod_add_self2)
    also have "\<dots> = uint w - 128" using True b by (intro mod_pos_pos_trivial) simp_all
    finally show ?thesis using True s by simp
  next
    case False
    then have "(uint w + 128) mod 256 = uint w + 128"
      using b by (intro mod_pos_pos_trivial) simp_all
    then show ?thesis using False s by simp
  qed
qed

lemma scast_byte:
  "(scast (w :: 8 word) :: 64 word) = (if 128 \<le> uint w then ucast w - 256 else ucast w)"
proof (cases "128 \<le> uint w")
  case True
  have "(scast w :: 64 word) = word_of_int (uint w - 256)"
    using True sint_byte[of w] by (simp only: scast_eq if_True)
  also have "\<dots> = word_of_int (uint w) - 256"
    by (simp only: of_int_diff of_int_numeral)
  finally show ?thesis using True by (simp only: ucast_eq if_True)
next
  case False
  have "(scast w :: 64 word) = word_of_int (uint w)"
    using False sint_byte[of w] by (simp only: scast_eq if_False)
  then show ?thesis using False by (simp only: ucast_eq if_False)
qed

lemma scast_scast_byte: "(scast (scast (w :: 8 word) :: 32 word) :: 64 word) = scast w"
  by (rule scast_up_scast) (simp add: is_up_def source_size target_size)

lemma scast_ucast_byte: "(scast (ucast (w :: 8 word) :: 32 word) :: 64 word) = ucast w"
proof (rule bit_word_eqI)
  fix n assume n: "n < LENGTH(64)"
  have "bit w n \<Longrightarrow> n < 8" using bit_imp_le_length[of w n] by simp
  then show "bit (scast (ucast w :: 32 word) :: 64 word) n = bit (ucast w :: 64 word) n"
    using n by (auto simp add: bit_simps min_def dest: bit_imp_le_length)
qed

lemma unat_of_char: "unat (of_char c :: 8 word) = of_char c"
proof -
  have "unat (of_nat (of_char c) :: 8 word) = of_char c"
    using nat_of_char_less_256[of c] by (simp add: unat_of_nat)
  then show ?thesis by (simp add: of_nat_of_char)
qed

lemma uint_of_char: "uint (of_char c :: 8 word) = int (of_char c)"
proof -
  have "uint (of_char c :: 8 word) = int (unat (of_char c :: 8 word))" by simp
  then show ?thesis by (simp only: unat_of_char)
qed

lemma ucast_of_char: "(ucast (of_char c :: 8 word) :: 64 word) = of_char c"
proof -
  have "(ucast (of_char c :: 8 word) :: 64 word) = of_nat (unat (of_char c :: 8 word))"
    by simp
  then show ?thesis by (simp only: unat_of_char of_nat_of_char)
qed

text \<open>The value the loop adds for one byte, on either kind of platform.\<close>

lemma char_to_int_value:
  "(scast (char_to_int sc ch) :: 64 word) =
     (if sc \<and> 128 \<le> (of_char ch :: nat) then of_char ch - 256 else of_char ch)"
proof (cases sc)
  case True
  have "(128 \<le> uint (of_char ch :: 8 word)) = (128 \<le> (of_char ch :: nat))"
    by (simp only: uint_of_char) simp
  then show ?thesis
    using True
    by (simp only: char_to_int_def if_True scast_scast_byte scast_byte ucast_of_char simp_thms)
next
  case False
  then show ?thesis
    by (simp only: char_to_int_def if_False scast_ucast_byte ucast_of_char simp_thms)
qed

lemma shift_add_33: "push_bit 5 (h :: 64 word) + h = h * 33"
  by (simp add: push_bit_eq_mult)

lemma MR_Partitioner_loop_foldl:
  "MR_Partitioner_loop sc h cs =
     foldl (\<lambda>h c. h * 33 + (if sc \<and> 128 \<le> (of_char c :: nat) then of_char c - 256 else of_char c))
       h cs"
proof (induction cs arbitrary: h)
  case Nil
  show ?case by simp
next
  case (Cons ch cs)
  show ?case
    by (simp only: MR_Partitioner_loop.simps Let_def Cons.IH shift_add_33 char_to_int_value
        foldl_Cons)
qed

subsection \<open>The partitioner is djb2\<close>

lemma unat_ucast_mod:
  assumes "P \<noteq> (0 :: 32 word)"
  shows "unat (ucast ((h :: 64 word) mod ucast P) :: 32 word) = unat h mod unat P"
proof -
  have P32: "unat P < 2 ^ 32"
    using unsigned_less[of P, where 'a=nat] by simp
  then have "take_bit 64 (unat P) = unat P"
    by (intro take_bit_nat_eq_self) simp
  then have P: "unat (ucast P :: 64 word) = unat P"
    by (simp add: unsigned_ucast_eq)
  have m: "unat (h mod ucast P) = unat h mod unat P"
    by (simp only: unat_mod P)
  moreover have "unat h mod unat P < unat P"
    using assms by (simp add: unat_gt_0)
  ultimately have "unat (h mod ucast P) < 2 ^ 32" using P32 by simp
  then have "take_bit 32 (unat (h mod ucast P)) = unat (h mod ucast P)"
    by (intro take_bit_nat_eq_self) simp
  then have "unat (ucast (h mod ucast P) :: 32 word) = unat (h mod ucast P)"
    by (simp add: unsigned_ucast_eq)
  then show ?thesis
    using m by simp
qed

lemma foldl_ascii:
  assumes "sc \<longrightarrow> (\<forall>c\<in>set cs. (of_char c :: nat) < 128)"
  shows "foldl (\<lambda>h c. h * 33 + (if sc \<and> 128 \<le> (of_char c :: nat) then of_char c - 256 else of_char c)) (h :: 64 word) cs
       = foldl (\<lambda>h c. h * 33 + of_char c) h cs"
  using assms by (induction cs arbitrary: h) auto

text \<open>
  Claim C2, as the code has it. For every key and every \<open>P \<ge> 1\<close>, \<open>MR_Partitioner(key, P)\<close>
  is the hash that starts at 5381 and takes \<open>h * 33 + c\<close> for each byte in unsigned 64-bit
  arithmetic, reduced modulo \<open>P\<close>, where a byte \<open>c\<close> of 128 or more counts as \<open>c - 256\<close>
  when plain \<open>char\<close> is signed. It is the hash of the specification, whose bytes count as
  0 to 255, when plain \<open>char\<close> is unsigned or every byte of the key is below 128.
\<close>

theorem MR_Partitioner_djb2:
  assumes "P \<noteq> 0"
  shows "map_option unat (MR_Partitioner sc k P) =
           Some (unat (foldl (\<lambda>h c. h * 33 +
                   (if sc \<and> 128 \<le> (of_char c :: nat) then of_char c - 256 else of_char c))
                 (5381 :: 64 word) k) mod unat P)
       \<and> ((sc \<longrightarrow> (\<forall>c \<in> set k. (of_char c :: nat) < 128)) \<longrightarrow>
           map_option unat (MR_Partitioner sc k P) = Some (partitioner_spec k P))"
proof -
  have r: "MR_Partitioner sc k P = Some (ucast (MR_Partitioner_loop sc 5381 k mod ucast P))"
    using assms by (simp add: MR_Partitioner_def)
  have v: "unat (ucast (MR_Partitioner_loop sc 5381 k mod ucast P) :: 32 word)
         = unat (MR_Partitioner_loop sc 5381 k) mod unat P"
    using assms by (rule unat_ucast_mod)
  have g: "map_option unat (MR_Partitioner sc k P) =
           Some (unat (foldl (\<lambda>h c. h * 33 +
                   (if sc \<and> 128 \<le> (of_char c :: nat) then of_char c - 256 else of_char c))
                 (5381 :: 64 word) k) mod unat P)"
    by (simp only: r option.map v) (simp only: MR_Partitioner_loop_foldl)
  have "map_option unat (MR_Partitioner sc k P) = Some (partitioner_spec k P)"
    if "sc \<longrightarrow> (\<forall>c \<in> set k. (of_char c :: nat) < 128)"
    using foldl_ascii[OF that, of 5381]
    by (simp only: g partitioner_spec_def djb2_spec_def)
  with g show ?thesis by blast
qed

text \<open>
  The key \<open>hello\<close> with ten partitions: partition 1, on the code and on the specification.
  The key of the two bytes C3 A9 where plain \<open>char\<close> is unsigned: partition 3 on both.
\<close>

theorem MR_Partitioner_djb2_witness:
  "(10 :: 32 word) \<noteq> 0 \<and> map_option unat (MR_Partitioner True ''hello'' 10) = Some 1
    \<and> partitioner_spec ''hello'' 10 = 1 \<and> list_all (\<lambda>c. (of_char c :: nat) < 128) ''hello''
    \<and> map_option unat (MR_Partitioner False [CHR 0xC3, CHR 0xA9] 10) = Some 3
    \<and> partitioner_spec [CHR 0xC3, CHR 0xA9] 10 = 3"
proof -
  have P: "(10 :: 32 word) \<noteq> 0" by simp
  show ?thesis
    using MR_Partitioner_djb2[OF P, of True "''hello''"]
      MR_Partitioner_djb2[OF P, of False "[CHR 0xC3, CHR 0xA9]"]
    by (simp add: partitioner_spec_def djb2_spec_def)
qed

text \<open>
  Claim C2 as stated fails where plain \<open>char\<close> is signed: for the key of the two bytes
  C3 A9 (the UTF-8 encoding of e with an acute accent) and ten partitions, the code
  returns partition 9 and the hash of the specification gives partition 3.
\<close>

theorem MR_Partitioner_signed_char_counterexample:
  "map_option unat (MR_Partitioner True [CHR 0xC3, CHR 0xA9] 10) = Some 9 \<and>
   partitioner_spec [CHR 0xC3, CHR 0xA9] 10 = 3 \<and>
   map_option unat (MR_Partitioner True [CHR 0xC3, CHR 0xA9] 10)
     \<noteq> Some (partitioner_spec [CHR 0xC3, CHR 0xA9] 10)"
  by (simp add: MR_Partitioner_def char_to_int_def partitioner_spec_def djb2_spec_def)

subsection \<open>The partition store: what each call does\<close>

lemma strcmp_less: "strcmp a b < 0 \<longleftrightarrow> a < b"
  by (induction a b rule: strcmp.induct) (auto simp add: less_char_def)

lemma strcmp_eq: "strcmp a b = 0 \<longleftrightarrow> a = b"
  by (induction a b rule: strcmp.induct) (auto simp add: of_char_eq_iff dest: order.asym)

lemma strcmp_ge: "strcmp a b \<ge> 0 \<longleftrightarrow> b \<le> a"
  using strcmp_less[of a b] by auto

lemma insert_sorted_walk_insort:
  "insert_sorted_walk xs pair = insort_key key pair xs"
  by (induction xs) (auto simp add: strcmp_less)

lemma head_insert_sorted:
  "head (insert_sorted part pair) = insort_key key pair (head part)"
  by (cases "head part") (auto simp add: insert_sorted_def insert_sorted_walk_insort strcmp_ge)

lemma bytes_insert_sorted: "bytes (insert_sorted part pair) = bytes part"
  by (simp add: insert_sorted_def split: list.splits)

lemma MR_Partitioner_Some:
  "P \<noteq> 0 \<Longrightarrow> \<exists>idx. MR_Partitioner sc k P = Some idx"
  by (simp add: MR_Partitioner_def)

lemma MR_Partitioner_nonzero:
  "MR_Partitioner sc k P = Some idx \<Longrightarrow> P \<noteq> 0"
  by (auto simp add: MR_Partitioner_def split: if_splits)

lemma Partition_bytes_update: "part\<lparr>bytes := b\<rparr> = \<lparr>head = head part, bytes = b\<rparr>"
  by simp

lemma MR_Emit_Some:
  assumes "MR_Partitioner sc k (num_partitions s) = Some idx"
  shows "MR_Emit sc s (Some k) (Some v) =
           s\<lparr>partitions := (partitions s)(idx :=
               \<lparr>head = insort_key key \<lparr>key = k, val = v\<rparr> (head (partitions s idx)),
                bytes = bytes (partitions s idx) + of_nat (pair_bytes \<lparr>key = k, val = v\<rparr>)\<rparr>)\<rparr>"
proof -
  have "num_partitions s \<noteq> 0" using assms by (rule MR_Partitioner_nonzero)
  then show ?thesis
    using assms
    by (simp add: MR_Emit_def Let_def strdup_def strlen_def pair_bytes_def
        Partition_bytes_update head_insert_sorted bytes_insert_sorted add.commute)
qed

lemma MR_Emit_noop:
  "k = None \<or> v = None \<or> num_partitions s = 0 \<Longrightarrow> MR_Emit sc s k v = s"
  by (auto simp add: MR_Emit_def split: option.splits)

lemma num_partitions_MR_Emit: "num_partitions (MR_Emit sc s k v) = num_partitions s"
  by (simp add: MR_Emit_def Let_def split: option.splits)

lemma MR_GetNext_Some:
  "MR_GetNext s k i = (Some v, s') \<longleftrightarrow>
     (\<exists>pair rest. k = Some (key pair) \<and> val pair = v \<and> i < num_partitions s \<and>
        head (partitions s i) = pair # rest \<and>
        s' = s\<lparr>partitions := (partitions s)(i := (partitions s i)\<lparr>head := rest\<rparr>)\<rparr>)"
  by (cases k; cases "head (partitions s i)")
     (auto simp add: MR_GetNext_def Let_def strcmp_eq not_le)

lemma MR_GetNext_None:
  "MR_GetNext s k i = (None, s') \<Longrightarrow> s' = s"
  by (auto simp add: MR_GetNext_def Let_def split: option.splits list.splits if_splits)

subsection \<open>Invariants of a run\<close>

lemma MR_exec_invariant:
  assumes "I s"
    and emit: "\<And>s k v. I s \<Longrightarrow> I (MR_Emit sc s k v)"
    and get: "\<And>s k i v s'. I s \<Longrightarrow> MR_GetNext s k i = (Some v, s') \<Longrightarrow> I s'"
  shows "I (snd (MR_exec sc s calls))"
  using \<open>I s\<close>
proof (induction calls arbitrary: s)
  case Nil
  then show ?case by simp
next
  case (Cons c calls)
  show ?case
  proof (cases c)
    case (Emit k v)
    then show ?thesis using Cons.IH[OF emit[OF Cons.prems]] by simp
  next
    case (GetNext k i)
    obtain r s' where g: "MR_GetNext s k i = (r, s')" by (cases "MR_GetNext s k i")
    show ?thesis
    proof (cases r)
      case None
      then have "s' = s" using g by (simp add: MR_GetNext_None)
      then show ?thesis using GetNext g None Cons.IH[OF Cons.prems] by simp
    next
      case (Some v)
      then have "I s'" using get[OF Cons.prems] g by simp
      then show ?thesis using GetNext g Some Cons.IH[of s'] by (simp add: case_prod_beta)
    qed
  qed
qed

lemma strcmp_le: "strcmp a b \<le> 0 \<longleftrightarrow> a \<le> b"
  using strcmp_less[of a b] strcmp_eq[of a b] by auto

lemma sorted_MR_Emit:
  assumes "\<forall>p. sorted (map key (head (partitions s p)))"
  shows "\<forall>p. sorted (map key (head (partitions (MR_Emit sc s k v) p)))"
proof (cases "k = None \<or> v = None \<or> num_partitions s = 0")
  case True
  then show ?thesis using assms by (simp add: MR_Emit_noop)
next
  case False
  then obtain k' v' where kv: "k = Some k'" "v = Some v'" and P: "num_partitions s \<noteq> 0"
    by auto
  obtain idx where "MR_Partitioner sc k' (num_partitions s) = Some idx"
    using MR_Partitioner_Some[OF P] by blast
  then show ?thesis
    using assms by (simp add: kv MR_Emit_Some sorted_insort_key)
qed

lemma sorted_MR_GetNext:
  assumes "\<forall>p. sorted (map key (head (partitions s p)))"
    and "MR_GetNext s k i = (Some v, s')"
  shows "\<forall>p. sorted (map key (head (partitions s' p)))"
proof -
  obtain pair rest where h: "head (partitions s i) = pair # rest"
    and s': "s' = s\<lparr>partitions := (partitions s)(i := (partitions s i)\<lparr>head := rest\<rparr>)\<rparr>"
    using assms(2) by (auto simp add: MR_GetNext_Some)
  have "sorted (map key (pair # rest))" using assms(1) h by metis
  then show ?thesis using assms(1) by (simp add: s')
qed

lemma sorted_MR_Run_init: "\<forall>p. sorted (map key (head (partitions (MR_Run_init P) p)))"
  by (simp add: MR_Run_init_def)

lemma sorted_foldl_insert_sorted:
  "sorted (map key (head part)) \<Longrightarrow>
     sorted (map key (head (foldl insert_sorted part pairs)))"
  by (induction pairs arbitrary: part) (simp_all add: head_insert_sorted sorted_insort_key)

lemma partition_keys_sorted_all:
  "\<forall>p. sorted (map key (head (partitions (snd (MR_exec sc (MR_Run_init P) calls)) p)))"
  by (rule MR_exec_invariant[where I = "\<lambda>s. \<forall>p. sorted (map key (head (partitions s p)))"])
     (fact sorted_MR_Run_init, erule sorted_MR_Emit, erule sorted_MR_GetNext, assumption)

text \<open>
  Claim C3. After any sequence of \<open>MR_Emit\<close> calls on the partitions that \<open>MR_Run\<close> sets up
  (and of \<open>MR_GetNext\<close> calls among them), the keys of every partition's list are
  non-decreasing in the order of the bytes: the list of keys is sorted, and for any
  two adjacent pairs \<open>strcmp\<close> of their keys is not positive, that is \<open>a.key \<le> b.key\<close>.
  So is the list that any sequence of \<open>insert_sorted\<close> calls builds from the empty list.
\<close>

theorem partition_keys_sorted:
  "sorted (map key (head (partitions (snd (MR_exec sc (MR_Run_init P) calls)) p)))
   \<and> (\<forall>i. Suc i < length (head (partitions (snd (MR_exec sc (MR_Run_init P) calls)) p)) \<longrightarrow>
          strcmp (key (head (partitions (snd (MR_exec sc (MR_Run_init P) calls)) p) ! i))
                 (key (head (partitions (snd (MR_exec sc (MR_Run_init P) calls)) p) ! Suc i)) \<le> 0
        \<and> key (head (partitions (snd (MR_exec sc (MR_Run_init P) calls)) p) ! i)
            \<le> key (head (partitions (snd (MR_exec sc (MR_Run_init P) calls)) p) ! Suc i))
   \<and> sorted (map key (head (foldl insert_sorted \<lparr>head = [], bytes = b\<rparr> pairs)))"
proof -
  let ?xs = "head (partitions (snd (MR_exec sc (MR_Run_init P) calls)) p)"
  have s: "sorted (map key ?xs)"
    using partition_keys_sorted_all[of sc P calls] by blast
  have "key (?xs ! i) \<le> key (?xs ! Suc i)" if "Suc i < length ?xs" for i
    using sorted_nth_mono[OF s, of i "Suc i"] that by simp
  moreover have "sorted (map key (head (foldl insert_sorted \<lparr>head = [], bytes = b\<rparr> pairs)))"
    by (rule sorted_foldl_insert_sorted) simp
  ultimately show ?thesis using s by (simp add: strcmp_le)
qed

text \<open>
  Three emits into one partition, in the order b, a, c: the list holds a, b, c, and the
  adjacent pair at positions 0 and 1 compares as claimed.
\<close>

theorem partition_keys_sorted_witness:
  "map key (head (partitions (snd (MR_exec True (MR_Run_init 1)
       [Emit (Some ''b'') (Some ''1''), Emit (Some ''a'') (Some ''2''), Emit (Some ''c'') (Some ''3'')])) 0))
     = [''a'', ''b'', ''c'']
   \<and> Suc 0 < length (head (partitions (snd (MR_exec True (MR_Run_init 1)
       [Emit (Some ''b'') (Some ''1''), Emit (Some ''a'') (Some ''2''), Emit (Some ''c'') (Some ''3'')])) 0))
   \<and> strcmp (key (head (partitions (snd (MR_exec True (MR_Run_init 1)
       [Emit (Some ''b'') (Some ''1''), Emit (Some ''a'') (Some ''2''), Emit (Some ''c'') (Some ''3'')])) 0) ! 0))
       (key (head (partitions (snd (MR_exec True (MR_Run_init 1)
       [Emit (Some ''b'') (Some ''1''), Emit (Some ''a'') (Some ''2''), Emit (Some ''c'') (Some ''3'')])) 0) ! Suc 0)) \<le> 0"
proof -
  let ?calls = "[Emit (Some ''b'') (Some ''1''), Emit (Some ''a'') (Some ''2''), Emit (Some ''c'') (Some ''3'')]"
  have e: "head (partitions (snd (MR_exec True (MR_Run_init 1) ?calls)) 0)
       = [\<lparr>key = ''a'', val = ''2''\<rparr>, \<lparr>key = ''b'', val = ''1''\<rparr>, \<lparr>key = ''c'', val = ''3''\<rparr>]"
    by (simp add: MR_Run_init_def MR_Emit_def MR_Partitioner_def Let_def insert_sorted_def
        strdup_def strlen_def)
  show ?thesis
    using partition_keys_sorted[of True 1 ?calls 0]
    unfolding e by simp
qed

subsection \<open>Every pair lies in the partition of its key\<close>

lemma routed_MR_Emit:
  assumes "num_partitions s = P"
    and "\<forall>p. \<forall>kv\<in>set (head (partitions s p)). MR_Partitioner sc (key kv) P = Some p"
  shows "\<forall>p. \<forall>kv\<in>set (head (partitions (MR_Emit sc s k v) p)).
           MR_Partitioner sc (key kv) P = Some p"
proof (cases "k = None \<or> v = None \<or> num_partitions s = 0")
  case True
  then show ?thesis using assms by (simp add: MR_Emit_noop)
next
  case False
  then obtain k' v' where kv: "k = Some k'" "v = Some v'" and P: "num_partitions s \<noteq> 0"
    by auto
  obtain idx where idx: "MR_Partitioner sc k' (num_partitions s) = Some idx"
    using MR_Partitioner_Some[OF P] by blast
  show ?thesis
    using assms idx by (auto simp add: kv MR_Emit_Some[OF idx] set_insort_key)
qed

lemma routed_MR_GetNext:
  assumes "\<forall>p. \<forall>kv\<in>set (head (partitions s p)). MR_Partitioner sc (key kv) P = Some p"
    and "MR_GetNext s k i = (Some v, s')"
  shows "\<forall>p. \<forall>kv\<in>set (head (partitions s' p)). MR_Partitioner sc (key kv) P = Some p"
proof -
  obtain pair rest where h: "head (partitions s i) = pair # rest"
    and s': "s' = s\<lparr>partitions := (partitions s)(i := (partitions s i)\<lparr>head := rest\<rparr>)\<rparr>"
    using assms(2) by (auto simp add: MR_GetNext_Some)
  have "set rest \<subseteq> set (head (partitions s i))" using h by auto
  then show ?thesis using assms(1) by (auto simp add: s')
qed

lemma num_partitions_MR_GetNext:
  "MR_GetNext s k i = (r, s') \<Longrightarrow> num_partitions s' = num_partitions s"
  by (auto simp add: MR_GetNext_def Let_def split: option.splits list.splits if_splits)

lemma num_partitions_MR_exec:
  "num_partitions (snd (MR_exec sc s calls)) = num_partitions s"
  by (rule MR_exec_invariant[where I = "\<lambda>s'. num_partitions s' = num_partitions s"])
     (simp_all add: num_partitions_MR_Emit num_partitions_MR_GetNext)

lemma routed_MR_exec:
  assumes "num_partitions s = P"
    and "\<forall>p. \<forall>kv\<in>set (head (partitions s p)). MR_Partitioner sc (key kv) P = Some p"
  shows "\<forall>p. \<forall>kv\<in>set (head (partitions (snd (MR_exec sc s calls)) p)).
           MR_Partitioner sc (key kv) P = Some p"
proof -
  have "num_partitions (snd (MR_exec sc s calls)) = P
      \<and> (\<forall>p. \<forall>kv\<in>set (head (partitions (snd (MR_exec sc s calls)) p)).
           MR_Partitioner sc (key kv) P = Some p)"
  proof (rule MR_exec_invariant[where I = "\<lambda>s. num_partitions s = P
      \<and> (\<forall>p. \<forall>kv\<in>set (head (partitions s p)). MR_Partitioner sc (key kv) P = Some p)"])
    show "num_partitions s = P
      \<and> (\<forall>p. \<forall>kv\<in>set (head (partitions s p)). MR_Partitioner sc (key kv) P = Some p)"
      using assms by simp
  next
    fix s :: MR_state and k v
    assume "num_partitions s = P
      \<and> (\<forall>p. \<forall>kv\<in>set (head (partitions s p)). MR_Partitioner sc (key kv) P = Some p)"
    then show "num_partitions (MR_Emit sc s k v) = P
      \<and> (\<forall>p. \<forall>kv\<in>set (head (partitions (MR_Emit sc s k v) p)).
            MR_Partitioner sc (key kv) P = Some p)"
      using routed_MR_Emit[of s P sc k v] by (simp add: num_partitions_MR_Emit)
  next
    fix s :: MR_state and k i v s'
    assume "num_partitions s = P
      \<and> (\<forall>p. \<forall>kv\<in>set (head (partitions s p)). MR_Partitioner sc (key kv) P = Some p)"
      and "MR_GetNext s k i = (Some v, s')"
    then show "num_partitions s' = P
      \<and> (\<forall>p. \<forall>kv\<in>set (head (partitions s' p)). MR_Partitioner sc (key kv) P = Some p)"
      using routed_MR_GetNext[of s sc P k i v s'] num_partitions_MR_GetNext[of s k i "Some v" s']
      by simp
  qed
  then show ?thesis by simp
qed

text \<open>
  Claim C8. After any sequence of \<open>MR_Emit\<close> and \<open>MR_GetNext\<close> calls on the partitions that
  \<open>MR_Run\<close> sets up for \<open>P\<close> partitions, every pair in the list of partition \<open>p\<close> has a key
  \<open>k\<close> with \<open>MR_Partitioner(k, P) = p\<close>.
\<close>

theorem live_pair_in_partition_of_key:
  "\<forall>kv \<in> set (head (partitions (snd (MR_exec sc (MR_Run_init P) calls)) p)).
     MR_Partitioner sc (key kv) P = Some p"
  using routed_MR_exec[of "MR_Run_init P" P sc calls]
  by (simp add: MR_Run_init_def)

text \<open>
  Emits of the keys hello, a and b with ten partitions, then \<open>MR_GetNext\<close> of b: the
  pair of key hello is live in partition 1, where the partitioner sends hello.
\<close>

theorem live_pair_in_partition_of_key_witness:
  "\<lparr>key = ''hello'', val = ''1''\<rparr> \<in> set (head (partitions (snd (MR_exec True (MR_Run_init 10)
       [Emit (Some ''hello'') (Some ''1''), Emit (Some ''a'') (Some ''2''),
        Emit (Some ''b'') (Some ''3''), GetNext (Some ''b'') 1])) 1))
   \<and> MR_Partitioner True (key \<lparr>key = ''hello'', val = ''1''\<rparr>) 10 = Some 1"
proof -
  let ?calls = "[Emit (Some ''hello'') (Some ''1''), Emit (Some ''a'') (Some ''2''),
        Emit (Some ''b'') (Some ''3''), GetNext (Some ''b'') 1]"
  have e: "head (partitions (snd (MR_exec True (MR_Run_init 10) ?calls)) 1)
             = [\<lparr>key = ''hello'', val = ''1''\<rparr>]"
    by (simp add: MR_Run_init_def MR_Emit_def MR_GetNext_def MR_Partitioner_def Let_def
        insert_sorted_def strdup_def strlen_def char_to_int_def word_le_nat_alt)
  show ?thesis
    using live_pair_in_partition_of_key[of True 10 ?calls 1]
    unfolding e by simp
qed

subsection \<open>Invalid arguments\<close>

text \<open>
  Claim C6. \<open>MR_Emit\<close> with a null key, a null value or \<open>num_partitions = 0\<close> returns with
  the state (every partition) as it was; \<open>MR_GetNext\<close> with a null key or a partition
  index of \<open>num_partitions\<close> or more returns \<open>NULL\<close> with the state as it was.
\<close>

theorem invalid_arguments_ignored:
  "(k = None \<or> v = None \<or> num_partitions s = 0 \<longrightarrow> MR_Emit sc s k v = s)
   \<and> (k = None \<or> i \<ge> num_partitions s \<longrightarrow> MR_GetNext s k i = (None, s))"
  by (auto simp add: MR_Emit_def MR_GetNext_def split: option.splits)

text \<open>
  On the state with one pair hello in partition 1 of 10: an emit with a null key, an
  emit with a null value and \<open>MR_GetNext\<close> of hello in partition 10 change nothing; so
  does an emit with no partitions.
\<close>

theorem invalid_arguments_ignored_witness:
  "MR_Emit True (MR_Emit True (MR_Run_init 10) (Some ''hello'') (Some ''1'')) None (Some ''1'')
     = MR_Emit True (MR_Run_init 10) (Some ''hello'') (Some ''1'')
   \<and> MR_Emit True (MR_Emit True (MR_Run_init 10) (Some ''hello'') (Some ''1'')) (Some ''hello'') None
     = MR_Emit True (MR_Run_init 10) (Some ''hello'') (Some ''1'')
   \<and> MR_GetNext (MR_Emit True (MR_Run_init 10) (Some ''hello'') (Some ''1'')) (Some ''hello'') 10
     = (None, MR_Emit True (MR_Run_init 10) (Some ''hello'') (Some ''1''))
   \<and> MR_GetNext (MR_Emit True (MR_Run_init 10) (Some ''hello'') (Some ''1'')) None 1
     = (None, MR_Emit True (MR_Run_init 10) (Some ''hello'') (Some ''1''))
   \<and> MR_Emit True (MR_Run_init 0) (Some ''hello'') (Some ''1'') = MR_Run_init 0
   \<and> head (partitions (MR_Emit True (MR_Run_init 10) (Some ''hello'') (Some ''1'')) 1)
     = [\<lparr>key = ''hello'', val = ''1''\<rparr>]"
proof -
  let ?s = "MR_Emit True (MR_Run_init 10) (Some ''hello'') (Some ''1'')"
  have n: "num_partitions ?s = 10" "num_partitions (MR_Run_init 0) = 0"
    by (simp_all add: num_partitions_MR_Emit MR_Run_init_def)
  have h: "head (partitions ?s 1) = [\<lparr>key = ''hello'', val = ''1''\<rparr>]"
    by (simp add: MR_Run_init_def MR_Emit_def MR_Partitioner_def Let_def
        insert_sorted_def strdup_def strlen_def char_to_int_def)
  show ?thesis
    using invalid_arguments_ignored[of None "Some ''1''" ?s True 1]
      invalid_arguments_ignored[of "Some ''hello''" None ?s True 10]
      invalid_arguments_ignored[of "Some ''hello''" "Some ''1''" "MR_Run_init 0" True 0]
    by (simp only: n h simp_thms order.refl)
qed

subsection \<open>The byte counter\<close>

lemma sum_list_insort_key:
  "sum_list (map f (insort_key g x xs)) = f x + sum_list (map (f :: 'a \<Rightarrow> nat) xs)"
  by (induction xs) auto

lemma bytes_MR_Emit:
  "bytes (partitions (MR_Emit sc s k v) p)
     + of_nat (sum_list (map pair_bytes (head (partitions s p))))
   = bytes (partitions s p)
     + of_nat (sum_list (map pair_bytes (head (partitions (MR_Emit sc s k v) p))))"
proof (cases "k = None \<or> v = None \<or> num_partitions s = 0")
  case True
  then show ?thesis by (simp add: MR_Emit_noop)
next
  case False
  then obtain k' v' where kv: "k = Some k'" "v = Some v'" and P: "num_partitions s \<noteq> 0"
    by auto
  obtain idx where idx: "MR_Partitioner sc k' (num_partitions s) = Some idx"
    using MR_Partitioner_Some[OF P] by blast
  show ?thesis
    by (simp add: kv MR_Emit_Some[OF idx] sum_list_insort_key)
qed

lemma word_account_step:
  fixes a :: "64 word"
  assumes "bf + a = b1 + x" and "b1 + l0 = b0 + a"
  shows "bf + l0 = b0 + x"
proof -
  have "(bf + l0) + (a + b1) = (b1 + l0) + (bf + a)" by (simp add: algebra_simps)
  also have "\<dots> = (b0 + a) + (b1 + x)" by (simp only: assms)
  also have "\<dots> = (b0 + x) + (a + b1)" by (simp add: algebra_simps)
  finally show ?thesis by (simp only: add_right_cancel)
qed

lemma bytes_MR_GetNext:
  "MR_GetNext s k i = (r, s') \<Longrightarrow> bytes (partitions s' p) = bytes (partitions s p)"
  by (auto simp add: MR_GetNext_def Let_def split: option.splits list.splits if_splits)

lemma MR_exec_GetNext_Some:
  "MR_GetNext s k i = (Some v, s') \<Longrightarrow>
     MR_exec sc s (GetNext k i # calls)
       = ((GetNext k i, v) # fst (MR_exec sc s' calls), snd (MR_exec sc s' calls))"
  by (simp add: case_prod_beta)

lemma MR_exec_GetNext_None:
  "MR_GetNext s k i = (None, s') \<Longrightarrow>
     MR_exec sc s (GetNext k i # calls) = MR_exec sc s calls"
  using MR_GetNext_None[of s k i s'] by simp

lemma bytes_MR_exec:
  "bytes (partitions (snd (MR_exec sc s calls)) p)
     + of_nat (sum_list (map pair_bytes (head (partitions s p))))
   = bytes (partitions s p)
     + of_nat (sum_list (map pair_bytes (head (partitions (snd (MR_exec sc s calls)) p)))
             + sum_list (map pair_bytes (removed p (fst (MR_exec sc s calls)))))"
proof (induction calls arbitrary: s)
  case Nil
  show ?case by simp
next
  case (Cons c calls)
  show ?case
  proof (cases c)
    case (Emit k v)
    show ?thesis
      using word_account_step[OF Cons.IH[of "MR_Emit sc s k v"] bytes_MR_Emit[of sc s k v p]]
      by (simp add: Emit)
  next
    case (GetNext k i)
    obtain r s' where g: "MR_GetNext s k i = (r, s')" by (cases "MR_GetNext s k i")
    show ?thesis
    proof (cases r)
      case None
      then have "MR_exec sc s (c # calls) = MR_exec sc s calls"
        using g GetNext by (simp only: MR_exec_GetNext_None)
      then show ?thesis using Cons.IH[of s] by simp
    next
      case (Some v)
      then obtain pair rest where k: "k = Some (key pair)" and v: "val pair = v"
        and h: "head (partitions s i) = pair # rest"
        and s': "s' = s\<lparr>partitions := (partitions s)(i := (partitions s i)\<lparr>head := rest\<rparr>)\<rparr>"
        using g by (auto simp add: MR_GetNext_Some)
      have pair: "\<lparr>key = key pair, val = v\<rparr> = pair" using v by simp
      have e: "MR_exec sc s (c # calls)
                 = ((GetNext (Some (key pair)) i, v) # fst (MR_exec sc s' calls),
                    snd (MR_exec sc s' calls))"
        using g Some GetNext k by (simp only: MR_exec_GetNext_Some)
      show ?thesis
      proof (cases "i = p")
        case True
        have "bytes (partitions (snd (MR_exec sc s' calls)) p)
                + of_nat (sum_list (map pair_bytes rest))
              = bytes (partitions s p)
                + of_nat (sum_list (map pair_bytes (head (partitions (snd (MR_exec sc s' calls)) p)))
                    + sum_list (map pair_bytes (removed p (fst (MR_exec sc s' calls)))))"
          using Cons.IH[of s'] True by (simp add: s')
        then have "bytes (partitions (snd (MR_exec sc s' calls)) p)
                + of_nat (sum_list (map pair_bytes rest)) + of_nat (pair_bytes pair)
              = bytes (partitions s p)
                + of_nat (sum_list (map pair_bytes (head (partitions (snd (MR_exec sc s' calls)) p)))
                    + sum_list (map pair_bytes (removed p (fst (MR_exec sc s' calls)))))
                + of_nat (pair_bytes pair)"
          by (simp only:)
        then show ?thesis
          using True h by (simp add: e pair algebra_simps)
      next
        case False
        then show ?thesis
          using Cons.IH[of s'] by (simp add: e s')
      qed
    qed
  qed
qed

text \<open>
  Claim C4, as the code has it. After any sequence of \<open>MR_Emit\<close> and \<open>MR_GetNext\<close> calls,
  the byte counter of a partition is the sum of \<open>len(key) + len(value) + 2\<close> over the
  pairs live in its list and over the pairs that \<open>MR_GetNext\<close> has taken out of it, modulo
  \<open>2^64\<close>: \<open>MR_Emit\<close> adds the pair's bytes and \<open>MR_GetNext\<close> leaves the counter as it
  is. As long as no \<open>MR_GetNext\<close> call has returned a value, the counter is the sum over
  the live pairs.
\<close>

theorem bytes_counts_emitted_pairs:
  "bytes (partitions (snd (MR_exec sc (MR_Run_init P) calls)) p)
     = of_nat (sum_list (map pair_bytes (head (partitions (snd (MR_exec sc (MR_Run_init P) calls)) p)))
             + sum_list (map pair_bytes (removed p (fst (MR_exec sc (MR_Run_init P) calls)))))
   \<and> (fst (MR_exec sc (MR_Run_init P) calls) = [] \<longrightarrow>
        bytes (partitions (snd (MR_exec sc (MR_Run_init P) calls)) p)
          = of_nat (sum_list (map pair_bytes
              (head (partitions (snd (MR_exec sc (MR_Run_init P) calls)) p)))))
   \<and> bytes (partitions (snd (MR_GetNext s k i)) p) = bytes (partitions s p)"
proof -
  have "bytes (partitions (snd (MR_exec sc (MR_Run_init P) calls)) p)
     = of_nat (sum_list (map pair_bytes (head (partitions (snd (MR_exec sc (MR_Run_init P) calls)) p)))
             + sum_list (map pair_bytes (removed p (fst (MR_exec sc (MR_Run_init P) calls)))))"
    using bytes_MR_exec[of sc "MR_Run_init P" calls p] by (simp add: MR_Run_init_def)
  moreover have "bytes (partitions (snd (MR_GetNext s k i)) p) = bytes (partitions s p)"
    using bytes_MR_GetNext[of s k i "fst (MR_GetNext s k i)" "snd (MR_GetNext s k i)" p] by simp
  ultimately show ?thesis by simp
qed

text \<open>
  Two emits into the one partition and \<open>MR_GetNext\<close> of the first key: the counter is 10,
  the live pair accounts for 6 and the removed pair for 4. After the two emits alone the
  counter is 10, the sum over the two live pairs.
\<close>

theorem bytes_counts_emitted_pairs_witness:
  "bytes (partitions (snd (MR_exec True (MR_Run_init 1)
      [Emit (Some ''a'') (Some ''1''), Emit (Some ''bb'') (Some ''22''), GetNext (Some ''a'') 0])) 0) = 10
   \<and> map pair_bytes (head (partitions (snd (MR_exec True (MR_Run_init 1)
      [Emit (Some ''a'') (Some ''1''), Emit (Some ''bb'') (Some ''22''), GetNext (Some ''a'') 0])) 0)) = [6]
   \<and> map pair_bytes (removed 0 (fst (MR_exec True (MR_Run_init 1)
      [Emit (Some ''a'') (Some ''1''), Emit (Some ''bb'') (Some ''22''), GetNext (Some ''a'') 0]))) = [4]
   \<and> fst (MR_exec True (MR_Run_init 1)
      [Emit (Some ''a'') (Some ''1''), Emit (Some ''bb'') (Some ''22'')]) = []
   \<and> bytes (partitions (snd (MR_exec True (MR_Run_init 1)
      [Emit (Some ''a'') (Some ''1''), Emit (Some ''bb'') (Some ''22'')])) 0) = 10
   \<and> map pair_bytes (head (partitions (snd (MR_exec True (MR_Run_init 1)
      [Emit (Some ''a'') (Some ''1''), Emit (Some ''bb'') (Some ''22'')])) 0)) = [4, 6]"
proof -
  let ?e = "[Emit (Some ''a'') (Some ''1''), Emit (Some ''bb'') (Some ''22'')]"
  let ?c = "[Emit (Some ''a'') (Some ''1''), Emit (Some ''bb'') (Some ''22''), GetNext (Some ''a'') 0]"
  have h: "head (partitions (snd (MR_exec True (MR_Run_init 1) ?c)) 0) = [\<lparr>key = ''bb'', val = ''22''\<rparr>]"
    "fst (MR_exec True (MR_Run_init 1) ?c) = [(GetNext (Some ''a'') 0, ''1'')]"
    "head (partitions (snd (MR_exec True (MR_Run_init 1) ?e)) 0)
       = [\<lparr>key = ''a'', val = ''1''\<rparr>, \<lparr>key = ''bb'', val = ''22''\<rparr>]"
    "fst (MR_exec True (MR_Run_init 1) ?e) = []"
    by (simp_all add: MR_Run_init_def MR_Emit_def MR_GetNext_def MR_Partitioner_def Let_def
        insert_sorted_def strdup_def strlen_def word_le_nat_alt)
  show ?thesis
    using bytes_counts_emitted_pairs[of True 1 ?c 0] bytes_counts_emitted_pairs[of True 1 ?e 0]
    unfolding h by (simp add: pair_bytes_def)
qed

text \<open>
  Claim C4 as stated fails: after \<open>MR_Emit("a", "1")\<close> and \<open>MR_GetNext("a", 0)\<close> the list of
  the partition is empty and its counter is still 4.
\<close>

theorem bytes_not_reduced_counterexample:
  "head (partitions (snd (MR_exec True (MR_Run_init 1)
      [Emit (Some ''a'') (Some ''1''), GetNext (Some ''a'') 0])) 0) = []
   \<and> bytes (partitions (snd (MR_exec True (MR_Run_init 1)
      [Emit (Some ''a'') (Some ''1''), GetNext (Some ''a'') 0])) 0) = 4
   \<and> bytes (partitions (snd (MR_exec True (MR_Run_init 1)
      [Emit (Some ''a'') (Some ''1''), GetNext (Some ''a'') 0])) 0)
     \<noteq> of_nat (sum_list (map pair_bytes (head (partitions (snd (MR_exec True (MR_Run_init 1)
      [Emit (Some ''a'') (Some ''1''), GetNext (Some ''a'') 0])) 0))))"
  by (simp add: MR_Run_init_def MR_Emit_def MR_GetNext_def MR_Partitioner_def Let_def
        insert_sorted_def strdup_def strlen_def word_le_nat_alt)

subsection \<open>Draining a key\<close>

lemma drain_out_of_range:
  "\<not> i < num_partitions s \<Longrightarrow> drain s k i = ([], s)"
  by (subst drain.simps) (simp add: MR_GetNext_def not_less)

lemma drain_takeWhile:
  "i < num_partitions s \<Longrightarrow>
     fst (drain s k i) = map val (takeWhile (\<lambda>kv. key kv = k) (head (partitions s i)))"
proof (induction "head (partitions s i)" arbitrary: s)
  case Nil
  then have "MR_GetNext s (Some k) i = (None, s)"
    by (simp add: MR_GetNext_def)
  then show ?case using Nil(1)[symmetric] by (subst drain.simps) simp
next
  case (Cons pair rest)
  show ?case
  proof (cases "key pair = k")
    case True
    let ?s' = "s\<lparr>partitions := (partitions s)(i := (partitions s i)\<lparr>head := rest\<rparr>)\<rparr>"
    have g: "MR_GetNext s (Some k) i = (Some (val pair), ?s')"
      using Cons(2)[symmetric] Cons(3) True
      by (simp add: MR_GetNext_Some)
    have "fst (drain ?s' k i) = map val (takeWhile (\<lambda>kv. key kv = k) rest)"
      using Cons(1)[of ?s'] Cons(3) by simp
    then show ?thesis
      using g True Cons(2)[symmetric]
      by (subst drain.simps) (simp add: case_prod_beta)
  next
    case False
    then have "MR_GetNext s (Some k) i = (None, s)"
      using Cons(2)[symmetric] by (simp add: MR_GetNext_def Let_def strcmp_eq)
    then show ?thesis using False Cons(2)[symmetric] by (subst drain.simps) simp
  qed
qed

lemma takeWhile_eq_filter_sorted:
  assumes "sorted (map f xs)" and "\<forall>x\<in>set xs. (k :: 'b :: linorder) \<le> f x"
  shows "takeWhile (\<lambda>x. f x = k) xs = filter (\<lambda>x. f x = k) xs"
  using assms
proof (induction xs)
  case Nil
  show ?case by simp
next
  case (Cons x xs)
  show ?case
  proof (cases "f x = k")
    case True
    then show ?thesis using Cons by simp
  next
    case False
    then have "k < f x" using Cons.prems(2) by (simp add: order.strict_iff_order)
    then have "\<forall>y\<in>set xs. f y \<noteq> k" using Cons.prems(1) by fastforce
    then have "filter (\<lambda>x. f x = k) xs = []" by (simp add: filter_empty_conv)
    then show ?thesis using False by simp
  qed
qed

lemma takeWhile_Nil_sorted:
  assumes "sorted (map f xs)" and "\<exists>x\<in>set xs. f x < (k :: 'b :: linorder)"
  shows "takeWhile (\<lambda>x. f x = k) xs = []"
proof (cases xs)
  case Nil
  then show ?thesis by simp
next
  case (Cons y ys)
  obtain x where "x \<in> set xs" "f x < k" using assms(2) by blast
  moreover have "f y \<le> f x" using assms(1) Cons \<open>x \<in> set xs\<close> by auto
  ultimately have "f y \<noteq> k" by auto
  then show ?thesis using Cons by simp
qed

lemma live_values_MR_Emit:
  assumes "MR_Partitioner sc k (num_partitions s) = Some p"
  shows "mset (map val (filter (\<lambda>kv. key kv = k) (head (partitions (MR_Emit sc s k1 v1) p))))
       = mset (map val (filter (\<lambda>kv. key kv = k) (head (partitions s p))))
         + mset (emitted k [Emit k1 v1])"
proof (cases "k1 = None \<or> v1 = None")
  case True
  then show ?thesis by (cases k1; cases v1) (auto simp add: MR_Emit_noop)
next
  case False
  then obtain k' v' where kv: "k1 = Some k'" "v1 = Some v'" by auto
  have P: "num_partitions s \<noteq> 0" using assms by (rule MR_Partitioner_nonzero)
  obtain idx where idx: "MR_Partitioner sc k' (num_partitions s) = Some idx"
    using MR_Partitioner_Some[OF P] by blast
  have E: "partitions (MR_Emit sc s k1 v1) = (partitions s)(idx :=
               \<lparr>head = insort_key key \<lparr>key = k', val = v'\<rparr> (head (partitions s idx)),
                bytes = bytes (partitions s idx) + of_nat (pair_bytes \<lparr>key = k', val = v'\<rparr>)\<rparr>)"
    by (simp add: kv MR_Emit_Some[OF idx])
  have em: "emitted k [Emit k1 v1] = (if k' = k then [v'] else [])"
    by (simp add: kv)
  show ?thesis
  proof (cases "k' = k")
    case True
    then have "idx = p" using idx assms by simp
    then show ?thesis
      using True by (simp add: E em)
  next
    case False
    then show ?thesis
      by (cases "idx = p") (simp_all add: E em)
  qed
qed

lemma emitted_Cons: "mset (emitted k (c # calls)) = mset (emitted k [c]) + mset (emitted k calls)"
  by (cases "(k, c # calls)" rule: emitted.cases) auto

lemma live_values_MR_exec:
  assumes "MR_Partitioner sc k (num_partitions s) = Some p"
  shows "mset (map val (filter (\<lambda>kv. key kv = k) (head (partitions (snd (MR_exec sc s calls)) p))))
         + mset (returned k p (fst (MR_exec sc s calls)))
       = mset (map val (filter (\<lambda>kv. key kv = k) (head (partitions s p))))
         + mset (emitted k calls)"
  using assms
proof (induction calls arbitrary: s)
  case Nil
  show ?case by (simp add: returned_def)
next
  case (Cons c calls)
  show ?case
  proof (cases c)
    case (Emit k1 v1)
    have "MR_Partitioner sc k (num_partitions (MR_Emit sc s k1 v1)) = Some p"
      using Cons.prems by (simp add: num_partitions_MR_Emit)
    from Cons.IH[OF this] show ?thesis
      using live_values_MR_Emit[OF Cons.prems, of k1 v1] emitted_Cons[of k c calls]
      by (simp add: Emit)
  next
    case (GetNext k1 i)
    obtain r s' where g: "MR_GetNext s k1 i = (r, s')" by (cases "MR_GetNext s k1 i")
    have em: "emitted k (c # calls) = emitted k calls" using GetNext by simp
    show ?thesis
    proof (cases r)
      case None
      then have "MR_exec sc s (c # calls) = MR_exec sc s calls"
        using g GetNext by (simp only: MR_exec_GetNext_None)
      then show ?thesis using Cons.IH[OF Cons.prems] em by simp
    next
      case (Some v)
      then obtain pair rest where k1: "k1 = Some (key pair)" and v: "val pair = v"
        and h: "head (partitions s i) = pair # rest"
        and s': "s' = s\<lparr>partitions := (partitions s)(i := (partitions s i)\<lparr>head := rest\<rparr>)\<rparr>"
        using g by (auto simp add: MR_GetNext_Some)
      have e: "MR_exec sc s (c # calls)
                 = ((GetNext (Some (key pair)) i, v) # fst (MR_exec sc s' calls),
                    snd (MR_exec sc s' calls))"
        using g Some GetNext k1 by (simp only: MR_exec_GetNext_Some)
      have "MR_Partitioner sc k (num_partitions s') = Some p"
        using Cons.prems by (simp add: s')
      note IH = Cons.IH[OF this]
      show ?thesis
      proof (cases "i = p \<and> key pair = k")
        case True
        then show ?thesis
          using IH h v by (simp add: e em s' returned_def)
      next
        case False
        then have "filter (\<lambda>kv. key kv = k) (head (partitions s' p))
                 = filter (\<lambda>kv. key kv = k) (head (partitions s p))"
          using h by (auto simp add: s')
        then show ?thesis
          using IH False by (auto simp add: e em returned_def)
      qed
    qed
  qed
qed

text \<open>
  Claim C1, as the code has it. \<open>MR_GetNext\<close> looks at the head of the list only. Take any
  sequence of \<open>MR_Emit\<close> and \<open>MR_GetNext\<close> calls on the partitions that \<open>MR_Run\<close> sets up, a
  key \<open>k\<close> and its partition \<open>p = MR_Partitioner(k, P)\<close>. If no pair live in partition
  \<open>p\<close> has a key below \<open>k\<close> (every smaller key has been drained, as when \<open>MR_Reduce\<close>
  passes the key at the head to the reducer), then the values obtained by calling
  \<open>MR_GetNext(k, p)\<close> until it returns \<open>NULL\<close>, together with those that earlier calls
  \<open>MR_GetNext(k, p)\<close> returned, are exactly the multiset of the values emitted for \<open>k\<close>
  with non-null arguments, and their number is the number of those emits. If a pair
  with a key below \<open>k\<close> is live in partition \<open>p\<close>, the first call returns \<open>NULL\<close>.
\<close>

theorem drain_returns_emitted_values:
  assumes "MR_Partitioner sc k P = Some p"
  shows "((\<forall>kv \<in> set (head (partitions (snd (MR_exec sc (MR_Run_init P) calls)) p)). k \<le> key kv) \<longrightarrow>
            mset (fst (drain (snd (MR_exec sc (MR_Run_init P) calls)) k p))
              + mset (returned k p (fst (MR_exec sc (MR_Run_init P) calls)))
              = mset (emitted k calls)
          \<and> length (fst (drain (snd (MR_exec sc (MR_Run_init P) calls)) k p))
              + length (returned k p (fst (MR_exec sc (MR_Run_init P) calls)))
              = length (emitted k calls))
       \<and> ((\<exists>kv \<in> set (head (partitions (snd (MR_exec sc (MR_Run_init P) calls)) p)). key kv < k) \<longrightarrow>
            fst (drain (snd (MR_exec sc (MR_Run_init P) calls)) k p) = [])"
proof -
  let ?s = "snd (MR_exec sc (MR_Run_init P) calls)"
  let ?xs = "head (partitions ?s p)"
  have P: "P \<noteq> 0" using assms by (rule MR_Partitioner_nonzero)
  have "unat p = unat (MR_Partitioner_loop sc 5381 k) mod unat P"
    using assms P unat_ucast_mod[OF P, of "MR_Partitioner_loop sc 5381 k"]
    by (auto simp add: MR_Partitioner_def)
  moreover have "0 < unat P" using P by (simp add: unat_gt_0)
  ultimately have "p < P" by (simp add: word_less_nat_alt)
  then have r: "p < num_partitions ?s"
    by (simp add: num_partitions_MR_exec MR_Run_init_def)
  have d: "fst (drain ?s k p) = map val (takeWhile (\<lambda>kv. key kv = k) ?xs)"
    using r by (rule drain_takeWhile)
  have srt: "sorted (map key ?xs)"
    using partition_keys_sorted_all[of sc P calls] by simp
  have m: "mset (map val (filter (\<lambda>kv. key kv = k) ?xs))
         + mset (returned k p (fst (MR_exec sc (MR_Run_init P) calls)))
       = mset (emitted k calls)"
    using live_values_MR_exec[of sc k "MR_Run_init P" p calls] assms
    by (simp add: MR_Run_init_def)
  have a: "mset (fst (drain ?s k p)) + mset (returned k p (fst (MR_exec sc (MR_Run_init P) calls)))
             = mset (emitted k calls)"
    if "\<forall>kv \<in> set ?xs. k \<le> key kv"
    using m takeWhile_eq_filter_sorted[OF srt that] by (simp only: d)
  have b: "length (fst (drain ?s k p)) + length (returned k p (fst (MR_exec sc (MR_Run_init P) calls)))
             = length (emitted k calls)"
    if "\<forall>kv \<in> set ?xs. k \<le> key kv"
    using arg_cong[OF a[OF that], of size] by simp
  have c: "fst (drain ?s k p) = []" if "\<exists>kv \<in> set ?xs. key kv < k"
    using takeWhile_Nil_sorted[OF srt that] by (simp only: d) simp
  show ?thesis using a b c by blast
qed
text \<open>
  Ten partitions; hello and b both go to partition 1. After the emits of hello, b and
  hello and the \<open>MR_GetNext\<close> of b, only hello is live there, and draining hello
  gives both values emitted for it. After the emits of hello and b alone, b is at the
  head of the list and draining hello gives nothing.
\<close>

theorem drain_returns_emitted_values_witness:
  "MR_Partitioner True ''hello'' 10 = Some 1
   \<and> list_all (\<lambda>kv. ''hello'' \<le> key kv) (head (partitions (snd (MR_exec True (MR_Run_init 10)
        [Emit (Some ''hello'') (Some ''1''), Emit (Some ''b'') (Some ''2''),
         Emit (Some ''hello'') (Some ''3''), GetNext (Some ''b'') 1])) 1))
   \<and> fst (drain (snd (MR_exec True (MR_Run_init 10)
        [Emit (Some ''hello'') (Some ''1''), Emit (Some ''b'') (Some ''2''),
         Emit (Some ''hello'') (Some ''3''), GetNext (Some ''b'') 1])) ''hello'' 1) = [''3'', ''1'']
   \<and> emitted ''hello''
        [Emit (Some ''hello'') (Some ''1''), Emit (Some ''b'') (Some ''2''),
         Emit (Some ''hello'') (Some ''3''), GetNext (Some ''b'') 1] = [''1'', ''3'']
   \<and> mset (fst (drain (snd (MR_exec True (MR_Run_init 10)
        [Emit (Some ''hello'') (Some ''1''), Emit (Some ''b'') (Some ''2''),
         Emit (Some ''hello'') (Some ''3''), GetNext (Some ''b'') 1])) ''hello'' 1))
       + mset (returned ''hello'' 1 (fst (MR_exec True (MR_Run_init 10)
        [Emit (Some ''hello'') (Some ''1''), Emit (Some ''b'') (Some ''2''),
         Emit (Some ''hello'') (Some ''3''), GetNext (Some ''b'') 1])))
       = mset (emitted ''hello''
        [Emit (Some ''hello'') (Some ''1''), Emit (Some ''b'') (Some ''2''),
         Emit (Some ''hello'') (Some ''3''), GetNext (Some ''b'') 1])
   \<and> list_ex (\<lambda>kv. key kv < ''hello'') (head (partitions (snd (MR_exec True (MR_Run_init 10)
        [Emit (Some ''hello'') (Some ''1''), Emit (Some ''b'') (Some ''2'')])) 1))
   \<and> fst (drain (snd (MR_exec True (MR_Run_init 10)
        [Emit (Some ''hello'') (Some ''1''), Emit (Some ''b'') (Some ''2'')])) ''hello'' 1) = []"
proof -
  let ?c1 = "[Emit (Some ''hello'') (Some ''1''), Emit (Some ''b'') (Some ''2''),
         Emit (Some ''hello'') (Some ''3''), GetNext (Some ''b'') 1]"
  let ?c2 = "[Emit (Some ''hello'') (Some ''1''), Emit (Some ''b'') (Some ''2'')]"
  have p: "MR_Partitioner True ''hello'' 10 = Some 1"
    by (simp add: MR_Partitioner_def char_to_int_def)
  have h1: "head (partitions (snd (MR_exec True (MR_Run_init 10) ?c1)) 1)
              = [\<lparr>key = ''hello'', val = ''3''\<rparr>, \<lparr>key = ''hello'', val = ''1''\<rparr>]"
    by (simp add: MR_Run_init_def MR_Emit_def MR_GetNext_def MR_Partitioner_def Let_def
        insert_sorted_def strdup_def strlen_def char_to_int_def word_le_nat_alt)
  have h2: "head (partitions (snd (MR_exec True (MR_Run_init 10) ?c2)) 1)
              = [\<lparr>key = ''b'', val = ''2''\<rparr>, \<lparr>key = ''hello'', val = ''1''\<rparr>]"
    by (simp add: MR_Run_init_def MR_Emit_def MR_GetNext_def MR_Partitioner_def Let_def
        insert_sorted_def strdup_def strlen_def char_to_int_def word_le_nat_alt)
  have n: "(1 :: 32 word) < num_partitions (snd (MR_exec True (MR_Run_init 10) ?c1))"
    by (simp only: num_partitions_MR_exec) (simp add: MR_Run_init_def)
  have d1: "fst (drain (snd (MR_exec True (MR_Run_init 10) ?c1)) ''hello'' 1) = [''3'', ''1'']"
    by (simp only: drain_takeWhile[OF n] h1) simp
  have em: "emitted ''hello'' ?c1 = [''1'', ''3'']"
    by simp
  have o: "''b'' < ''hello''"
    by (simp add: less_char_def)
  have A: "list_all (\<lambda>kv. ''hello'' \<le> key kv)
             (head (partitions (snd (MR_exec True (MR_Run_init 10) ?c1)) 1))"
    unfolding h1 by simp
  then have "\<forall>kv \<in> set (head (partitions (snd (MR_exec True (MR_Run_init 10) ?c1)) 1)).
                ''hello'' \<le> key kv"
    by (simp only: list_all_iff)
  with drain_returns_emitted_values[OF p, of ?c1]
  have C: "mset (fst (drain (snd (MR_exec True (MR_Run_init 10) ?c1)) ''hello'' 1))
       + mset (returned ''hello'' 1 (fst (MR_exec True (MR_Run_init 10) ?c1)))
       = mset (emitted ''hello'' ?c1)"
    by blast
  have D: "list_ex (\<lambda>kv. key kv < ''hello'')
             (head (partitions (snd (MR_exec True (MR_Run_init 10) ?c2)) 1))"
    unfolding h2 using o by simp
  then have "\<exists>kv \<in> set (head (partitions (snd (MR_exec True (MR_Run_init 10) ?c2)) 1)).
                key kv < ''hello''"
    by (simp only: list_ex_iff)
  with drain_returns_emitted_values[OF p, of ?c2]
  have E: "fst (drain (snd (MR_exec True (MR_Run_init 10) ?c2)) ''hello'' 1) = []"
    by blast
  show ?thesis
    by (intro conjI) (fact p, fact A, fact d1, fact em, fact C, fact D, fact E)
qed

text \<open>
  Claim C1 as stated fails for a key that is not the smallest of its partition: with
  one partition, after \<open>MR_Emit("a", "1")\<close> and \<open>MR_Emit("b", "2")\<close>, \<open>MR_GetNext("b", 0)\<close>
  returns \<open>NULL\<close> at once, although one value was emitted for b.
\<close>

theorem drain_not_head_counterexample:
  "MR_Partitioner True ''b'' 1 = Some 0
   \<and> emitted ''b'' [Emit (Some ''a'') (Some ''1''), Emit (Some ''b'') (Some ''2'')] = [''2'']
   \<and> MR_GetNext (snd (MR_exec True (MR_Run_init 1)
        [Emit (Some ''a'') (Some ''1''), Emit (Some ''b'') (Some ''2'')])) (Some ''b'') 0
      = (None, snd (MR_exec True (MR_Run_init 1)
        [Emit (Some ''a'') (Some ''1''), Emit (Some ''b'') (Some ''2'')]))
   \<and> fst (drain (snd (MR_exec True (MR_Run_init 1)
        [Emit (Some ''a'') (Some ''1''), Emit (Some ''b'') (Some ''2'')])) ''b'' 0) = []
   \<and> length (fst (drain (snd (MR_exec True (MR_Run_init 1)
        [Emit (Some ''a'') (Some ''1''), Emit (Some ''b'') (Some ''2'')])) ''b'' 0))
      \<noteq> length (emitted ''b'' [Emit (Some ''a'') (Some ''1''), Emit (Some ''b'') (Some ''2'')])"
proof -
  let ?c = "[Emit (Some ''a'') (Some ''1''), Emit (Some ''b'') (Some ''2'')]"
  have h: "head (partitions (snd (MR_exec True (MR_Run_init 1) ?c)) 0)
              = [\<lparr>key = ''a'', val = ''1''\<rparr>, \<lparr>key = ''b'', val = ''2''\<rparr>]"
    by (simp add: MR_Run_init_def MR_Emit_def MR_Partitioner_def Let_def
        insert_sorted_def strdup_def strlen_def)
  have n: "(0 :: 32 word) < num_partitions (snd (MR_exec True (MR_Run_init 1) ?c))"
    by (simp only: num_partitions_MR_exec) (simp add: MR_Run_init_def)
  have g: "MR_GetNext (snd (MR_exec True (MR_Run_init 1) ?c)) (Some ''b'') 0
             = (None, snd (MR_exec True (MR_Run_init 1) ?c))"
    using n by (simp only: MR_GetNext_def h option.case Let_def list.case) (simp add: not_le)
  have d: "fst (drain (snd (MR_exec True (MR_Run_init 1) ?c)) ''b'' 0) = []"
    by (simp only: drain_takeWhile[OF n] h) simp
  show ?thesis
    by (simp only: g d) (simp add: MR_Partitioner_def)
qed

subsection \<open>Pairs of equal keys\<close>

lemma insort_key_takeWhile:
  "insort_key f x xs
     = takeWhile (\<lambda>y. f y < f x) xs @ x # dropWhile (\<lambda>y. f y < f x) xs"
  by (induction xs) (auto simp add: not_less)






subsection \<open>The job queue\<close>

lemma add_job_walk_insort:
  "add_job_walk xs job = insort_key job_size job xs"
  by (induction xs) (auto simp add: not_less)

lemma q_head_add_job_to_queue:
  "q_head (add_job_to_queue q job) = insort_key job_size job (q_head q)"
  by (cases "q_head q") (auto simp add: add_job_to_queue_def Let_def add_job_walk_insort)

lemma q_size_add_job_to_queue:
  "q_size (add_job_to_queue q job) = q_size q + 1"
  by (simp add: add_job_to_queue_def Let_def split: list.splits)

lemma sorted_ThreadPool_get_job:
  "sorted (map job_size (q_head (jobs tp))) \<Longrightarrow>
     sorted (map job_size (q_head (jobs (snd (ThreadPool_get_job tp)))))"
  by (cases "q_head (jobs tp)") (auto simp add: ThreadPool_get_job_def)

lemma sorted_queue_ops:
  "sorted (map job_size (q_head (jobs tp))) \<Longrightarrow>
     sorted (map job_size (q_head (jobs (queue_ops tp ops))))"
proof (induction ops arbitrary: tp)
  case Nil
  then show ?case by simp
next
  case (Cons op ops)
  show ?case
  proof (cases op)
    case (Add_job job)
    have "sorted (map job_size (q_head (jobs (tp\<lparr>jobs := add_job_to_queue (jobs tp) job\<rparr>))))"
      using Cons.prems by (simp add: q_head_add_job_to_queue sorted_insort_key)
    from Cons.IH[OF this] show ?thesis by (simp add: Add_job)
  next
    case Get_job
    from Cons.IH[OF sorted_ThreadPool_get_job[OF Cons.prems]] show ?thesis
      by (simp add: Get_job)
  qed
qed

lemma get_job_min:
  assumes "sorted (map job_size (q_head (jobs tp)))" and "q_head (jobs tp) \<noteq> []"
  shows "\<exists>job. fst (ThreadPool_get_job tp) = Some job \<and> job \<in> set (q_head (jobs tp))
           \<and> job_size job = Min (set (map job_size (q_head (jobs tp))))"
proof -
  obtain job rest where q: "q_head (jobs tp) = job # rest"
    using assms(2) by (cases "q_head (jobs tp)") auto
  have "\<forall>x\<in>set rest. job_size job \<le> job_size x"
    using assms(1) q by simp
  then have "Min (set (map job_size (job # rest))) = job_size job"
    by (intro Min_eqI) auto
  then show ?thesis
    by (simp add: ThreadPool_get_job_def q)
qed

text \<open>
  Claim C5. Starting from a pool whose queue is empty, after any sequence of
  \<open>add_job_to_queue\<close> and \<open>ThreadPool_get_job\<close> operations the queue is sorted ascending by
  \<open>job_size\<close> (compared as unsigned \<open>size_t\<close>); and when the queue \<open>Q\<close> reached is not
  empty, the next \<open>ThreadPool_get_job\<close> returns a job of \<open>Q\<close> whose \<open>job_size\<close> is the
  minimum of the sizes in \<open>Q\<close>.
\<close>

theorem job_queue_sorted_and_get_job_min:
  assumes "q_head (jobs tp) = []"
  shows "sorted (map job_size (q_head (jobs (queue_ops tp ops))))
       \<and> (q_head (jobs (queue_ops tp ops)) \<noteq> [] \<longrightarrow>
           (\<exists>job. fst (ThreadPool_get_job (queue_ops tp ops)) = Some job
              \<and> job \<in> set (q_head (jobs (queue_ops tp ops)))
              \<and> job_size job = Min (set (map job_size (q_head (jobs (queue_ops tp ops)))))))"
proof -
  have "sorted (map job_size (q_head (jobs tp)))" using assms by simp
  then have s: "sorted (map job_size (q_head (jobs (queue_ops tp ops))))"
    by (rule sorted_queue_ops)
  show ?thesis
    using s get_job_min[OF s] by blast
qed

text \<open>
  The pool that \<open>ThreadPool_create(1)\<close> returns, jobs of the sizes 100, 1 and 50 added,
  one job taken and a job of size 70 added: the queue holds the sizes 50, 70, 100 and the
  next job taken has size 50.
\<close>

theorem job_queue_sorted_and_get_job_min_witness:
  "q_head (jobs \<lparr>jobs = \<lparr>q_size = 0 :: 32 word, q_head = []\<rparr>, stop = False\<rparr>) = []
   \<and> ThreadPool_create 1 = Some \<lparr>jobs = \<lparr>q_size = 0 :: 32 word, q_head = []\<rparr>, stop = False\<rparr>
   \<and> map job_size (q_head (jobs (queue_ops
        \<lparr>jobs = \<lparr>q_size = 0 :: 32 word, q_head = []\<rparr>, stop = False\<rparr>
        [Add_job \<lparr>func = 1, arg = 10, job_size = 100\<rparr>, Add_job \<lparr>func = 1, arg = 20, job_size = 1\<rparr>,
         Add_job \<lparr>func = 1, arg = 30, job_size = 50\<rparr>, Get_job,
         Add_job \<lparr>func = 1, arg = 40, job_size = 70\<rparr>]))) = [50, 70, 100]
   \<and> fst (ThreadPool_get_job (queue_ops
        \<lparr>jobs = \<lparr>q_size = 0 :: 32 word, q_head = []\<rparr>, stop = False\<rparr>
        [Add_job \<lparr>func = 1, arg = 10, job_size = 100\<rparr>, Add_job \<lparr>func = 1, arg = 20, job_size = 1\<rparr>,
         Add_job \<lparr>func = 1, arg = 30, job_size = 50\<rparr>, Get_job,
         Add_job \<lparr>func = 1, arg = 40, job_size = 70\<rparr>]))
     = Some \<lparr>func = 1, arg = 30, job_size = 50\<rparr>
   \<and> Min (set (map job_size (q_head (jobs (queue_ops
        \<lparr>jobs = \<lparr>q_size = 0 :: 32 word, q_head = []\<rparr>, stop = False\<rparr>
        [Add_job \<lparr>func = 1, arg = 10, job_size = 100\<rparr>, Add_job \<lparr>func = 1, arg = 20, job_size = 1\<rparr>,
         Add_job \<lparr>func = 1, arg = 30, job_size = 50\<rparr>, Get_job,
         Add_job \<lparr>func = 1, arg = 40, job_size = 70\<rparr>]))))) = 50"
proof -
  let ?tp = "\<lparr>jobs = \<lparr>q_size = 0 :: 32 word, q_head = []\<rparr>, stop = False\<rparr>"
  let ?ops = "[Add_job \<lparr>func = 1, arg = 10, job_size = 100\<rparr>, Add_job \<lparr>func = 1, arg = 20, job_size = 1\<rparr>,
         Add_job \<lparr>func = 1, arg = 30, job_size = 50\<rparr>, Get_job,
         Add_job \<lparr>func = 1, arg = 40, job_size = 70\<rparr>]"
  have e: "queue_ops ?tp ?ops
         = \<lparr>jobs = \<lparr>q_size = 3, q_head = [\<lparr>func = 1, arg = 30, job_size = 50\<rparr>,
               \<lparr>func = 1, arg = 40, job_size = 70\<rparr>, \<lparr>func = 1, arg = 10, job_size = 100\<rparr>]\<rparr>,
             stop = False\<rparr>"
    by (simp add: add_job_to_queue_def ThreadPool_get_job_def Let_def word_le_nat_alt
        word_less_nat_alt)
  have c: "ThreadPool_create 1 = Some ?tp"
    by (simp add: ThreadPool_create_def)
  have h: "q_head (jobs ?tp) = []" by simp
  have A: "map job_size (q_head (jobs (queue_ops ?tp ?ops))) = [50, 70, 100]"
    by (simp only: e) simp
  have T: "\<exists>job. fst (ThreadPool_get_job (queue_ops ?tp ?ops)) = Some job
              \<and> job \<in> set (q_head (jobs (queue_ops ?tp ?ops)))
              \<and> job_size job = Min (set (map job_size (q_head (jobs (queue_ops ?tp ?ops)))))"
    using job_queue_sorted_and_get_job_min[OF h, of ?ops] A by auto
  have B: "fst (ThreadPool_get_job (queue_ops ?tp ?ops)) = Some \<lparr>func = 1, arg = 30, job_size = 50\<rparr>"
    by (simp only: e) (simp add: ThreadPool_get_job_def)
  have C: "Min (set (map job_size (q_head (jobs (queue_ops ?tp ?ops))))) = 50"
    using T B by auto
  show ?thesis
    by (intro conjI) (fact h, fact c, fact A, fact B, fact C)
qed

subsection \<open>Submitting a job\<close>

text \<open>
  Claim C7. When the pool's \<open>stop\<close> flag is set, \<open>ThreadPool_add_job\<close> returns \<open>false\<close> and
  the pool is as it was: the queue is unchanged and nothing of the pool holds the
  caller's argument. Otherwise it returns \<open>true\<close> and the queue holds exactly one more
  job, the one with the given \<open>func\<close>, \<open>arg\<close> and \<open>job_size\<close>, linked in after the jobs of
  smaller size, with \<open>size\<close> counted up by one.
\<close>

theorem ThreadPool_add_job_stop_or_enqueue:
  "(stop tp \<longrightarrow> ThreadPool_add_job tp f a sz = (False, tp))
   \<and> (\<not> stop tp \<longrightarrow>
        fst (ThreadPool_add_job tp f a sz) = True
        \<and> q_head (jobs (snd (ThreadPool_add_job tp f a sz)))
            = takeWhile (\<lambda>j. job_size j < sz) (q_head (jobs tp))
              @ \<lparr>func = f, arg = a, job_size = sz\<rparr>
              # dropWhile (\<lambda>j. job_size j < sz) (q_head (jobs tp))
        \<and> mset (q_head (jobs (snd (ThreadPool_add_job tp f a sz))))
            = add_mset \<lparr>func = f, arg = a, job_size = sz\<rparr> (mset (q_head (jobs tp)))
        \<and> q_size (jobs (snd (ThreadPool_add_job tp f a sz))) = q_size (jobs tp) + 1
        \<and> stop (snd (ThreadPool_add_job tp f a sz)) = stop tp)"
proof -
  have "insort_key job_size \<lparr>func = f, arg = a, job_size = sz\<rparr> (q_head (jobs tp))
      = takeWhile (\<lambda>j. job_size j < sz) (q_head (jobs tp))
        @ \<lparr>func = f, arg = a, job_size = sz\<rparr>
        # dropWhile (\<lambda>j. job_size j < sz) (q_head (jobs tp))"
    using insort_key_takeWhile[of job_size "\<lparr>func = f, arg = a, job_size = sz\<rparr>" "q_head (jobs tp)"]
    by simp
  moreover have "mset (insort_key job_size \<lparr>func = f, arg = a, job_size = sz\<rparr> (q_head (jobs tp)))
      = add_mset \<lparr>func = f, arg = a, job_size = sz\<rparr> (mset (q_head (jobs tp)))"
    by simp
  ultimately show ?thesis
    by (simp add: ThreadPool_add_job_def Let_def q_head_add_job_to_queue q_size_add_job_to_queue)
qed

text \<open>
  A pool with one job of size 5 in its queue. Stopped, it refuses a job of size 3 and
  stays as it is; running, it takes the job in front of the job of size 5.
\<close>

theorem ThreadPool_add_job_stop_or_enqueue_witness:
  "ThreadPool_add_job
      \<lparr>jobs = \<lparr>q_size = 1 :: 32 word, q_head = [\<lparr>func = 1, arg = 10, job_size = 5\<rparr>]\<rparr>, stop = True\<rparr>
      2 20 3
     = (False,
        \<lparr>jobs = \<lparr>q_size = 1 :: 32 word, q_head = [\<lparr>func = 1, arg = 10, job_size = 5\<rparr>]\<rparr>, stop = True\<rparr>)
   \<and> ThreadPool_add_job
      \<lparr>jobs = \<lparr>q_size = 1 :: 32 word, q_head = [\<lparr>func = 1, arg = 10, job_size = 5\<rparr>]\<rparr>, stop = False\<rparr>
      2 20 3
     = (True,
        \<lparr>jobs = \<lparr>q_size = 2 :: 32 word,
                 q_head = [\<lparr>func = 2, arg = 20, job_size = 3\<rparr>, \<lparr>func = 1, arg = 10, job_size = 5\<rparr>]\<rparr>,
         stop = False\<rparr>)"
proof -
  let ?q = "\<lparr>q_size = 1 :: 32 word, q_head = [\<lparr>func = 1, arg = 10, job_size = 5\<rparr>]\<rparr>"
  have A: "ThreadPool_add_job \<lparr>jobs = ?q, stop = True\<rparr> 2 20 3 = (False, \<lparr>jobs = ?q, stop = True\<rparr>)"
    using ThreadPool_add_job_stop_or_enqueue[of "\<lparr>jobs = ?q, stop = True\<rparr>" 2 20 3]
    by simp
  have B: "ThreadPool_add_job \<lparr>jobs = ?q, stop = False\<rparr> 2 20 3
     = (True, \<lparr>jobs = \<lparr>q_size = 2 :: 32 word,
                 q_head = [\<lparr>func = 2, arg = 20, job_size = 3\<rparr>, \<lparr>func = 1, arg = 10, job_size = 5\<rparr>]\<rparr>,
         stop = False\<rparr>)"
    by (simp add: ThreadPool_add_job_def add_job_to_queue_def Let_def word_le_nat_alt)
  have "q_head (jobs (snd (ThreadPool_add_job \<lparr>jobs = ?q, stop = False\<rparr> 2 20 3)))
          = [\<lparr>func = 2, arg = 20, job_size = 3\<rparr>, \<lparr>func = 1, arg = 10, job_size = 5\<rparr>]"
    using ThreadPool_add_job_stop_or_enqueue[of "\<lparr>jobs = ?q, stop = False\<rparr>" 2 20 3]
    by (simp add: word_less_nat_alt)
  then show ?thesis using A B by simp
qed

subsection \<open>The barrier\<close>

lemma length_insort_key_Suc: "length (insort_key f x xs) = Suc (length xs)"
  by (induction xs) auto

lemma counts_pool_start:
  assumes "pool_start num = Some s"
  shows "q_size (jobs (pool s)) = of_nat (length (q_head (jobs (pool s))))
       \<and> active_workers s = of_nat (size (running s))
       \<and> accepted s = mset (q_head (jobs (pool s))) + running s + finished s"
  using assms
  by (auto simp add: pool_start_def ThreadPool_create_def split: if_splits option.splits)

lemma counts_submit:
  assumes "q_size (jobs (pool s)) = of_nat (length (q_head (jobs (pool s))))
       \<and> active_workers s = of_nat (size (running s))
       \<and> accepted s = mset (q_head (jobs (pool s))) + running s + finished s"
  shows "q_size (jobs (pool (submit s f a sz)))
           = of_nat (length (q_head (jobs (pool (submit s f a sz)))))
       \<and> active_workers (submit s f a sz) = of_nat (size (running (submit s f a sz)))
       \<and> accepted (submit s f a sz)
           = mset (q_head (jobs (pool (submit s f a sz)))) + running (submit s f a sz)
             + finished (submit s f a sz)"
  using assms
  by (simp add: submit_def ThreadPool_add_job_def Let_def q_head_add_job_to_queue
      q_size_add_job_to_queue length_insort_key_Suc)

lemma counts_Thread_run_take:
  assumes "q_size (jobs (pool s)) = of_nat (length (q_head (jobs (pool s))))
       \<and> active_workers s = of_nat (size (running s))
       \<and> accepted s = mset (q_head (jobs (pool s))) + running s + finished s"
    and "Thread_run_take s = Some s'"
  shows "q_size (jobs (pool s')) = of_nat (length (q_head (jobs (pool s'))))
       \<and> active_workers s' = of_nat (size (running s'))
       \<and> accepted s' = mset (q_head (jobs (pool s'))) + running s' + finished s'"
proof (cases "q_head (jobs (pool s))")
  case Nil
  then have "s' = s"
    using assms(2) by (auto simp add: Thread_run_take_def ThreadPool_get_job_def split: if_splits)
  then show ?thesis using assms(1) by simp
next
  case (Cons job rest)
  then have "s' = s \<or> s' = s\<lparr>pool := (pool s)\<lparr>jobs := (jobs (pool s))\<lparr>q_head := rest,
                 q_size := q_size (jobs (pool s)) - 1\<rparr>\<rparr>,
               active_workers := active_workers s + 1, running := add_mset job (running s)\<rparr>"
    using assms(2) by (auto simp add: Thread_run_take_def ThreadPool_get_job_def split: if_splits)
  then show ?thesis
    using assms(1) Cons by auto
qed

lemma counts_Thread_run_finish:
  assumes "q_size (jobs (pool s)) = of_nat (length (q_head (jobs (pool s))))
       \<and> active_workers s = of_nat (size (running s))
       \<and> accepted s = mset (q_head (jobs (pool s))) + running s + finished s"
    and "Thread_run_finish s job = Some s'"
  shows "q_size (jobs (pool s')) = of_nat (length (q_head (jobs (pool s'))))
       \<and> active_workers s' = of_nat (size (running s'))
       \<and> accepted s' = mset (q_head (jobs (pool s'))) + running s' + finished s'"
proof -
  have j: "job \<in># running s"
    and s': "s' = s\<lparr>active_workers := active_workers s - 1, running := running s - {#job#},
                   finished := add_mset job (finished s)\<rparr>"
    using assms(2) by (auto simp add: Thread_run_finish_def split: if_splits)
  obtain R where R: "running s = add_mset job R"
    using j by (meson mset_add)
  show ?thesis
    using assms(1) by (simp add: s' R)
qed

lemma counts_pool_step:
  assumes "q_size (jobs (pool s)) = of_nat (length (q_head (jobs (pool s))))
       \<and> active_workers s = of_nat (size (running s))
       \<and> accepted s = mset (q_head (jobs (pool s))) + running s + finished s"
    and "pool_step s ev = Some s'"
  shows "q_size (jobs (pool s')) = of_nat (length (q_head (jobs (pool s'))))
       \<and> active_workers s' = of_nat (size (running s'))
       \<and> accepted s' = mset (q_head (jobs (pool s'))) + running s' + finished s'"
proof (cases ev)
  case (Submit f a sz)
  then show ?thesis using assms counts_submit[OF assms(1), of f a sz] by auto
next
  case Take
  then show ?thesis using assms counts_Thread_run_take[OF assms(1), of s'] by simp
next
  case (Finish job)
  then show ?thesis using assms counts_Thread_run_finish[OF assms(1), of job s'] by simp
next
  case Stop
  then show ?thesis using assms by (auto simp add: ThreadPool_destroy_stop_def)
qed

lemma counts_pool_events:
  assumes "q_size (jobs (pool s)) = of_nat (length (q_head (jobs (pool s))))
       \<and> active_workers s = of_nat (size (running s))
       \<and> accepted s = mset (q_head (jobs (pool s))) + running s + finished s"
    and "pool_events s evs = Some s'"
  shows "q_size (jobs (pool s')) = of_nat (length (q_head (jobs (pool s'))))
       \<and> active_workers s' = of_nat (size (running s'))
       \<and> accepted s' = mset (q_head (jobs (pool s'))) + running s' + finished s'"
  using assms
proof (induction evs arbitrary: s)
  case Nil
  then show ?case by simp
next
  case (Cons ev evs)
  then obtain s1 where s1: "pool_step s ev = Some s1" and r: "pool_events s1 evs = Some s'"
    by (auto split: option.splits)
  from Cons.IH[OF counts_pool_step[OF Cons.prems(1) s1] r] show ?case .
qed

lemma of_nat_word_eq_0:
  assumes "(of_nat n :: 'w::len word) = 0" and "n < 2 ^ LENGTH('w)"
  shows "n = 0"
proof -
  have "unat (of_nat n :: 'w word) = n"
    using assms(2) by (simp add: unat_of_nat)
  then show ?thesis using assms(1) by simp
qed

text \<open>
  Claim C9. Take any run of a pool that \<open>ThreadPool_create\<close> returned: calls of
  \<open>ThreadPool_add_job\<close>, workers taking and finishing jobs, and \<open>ThreadPool_destroy\<close>
  setting \<open>stop\<close>, in any order. When \<open>ThreadPool_check\<close> returns, that is in a state
  where the condition of its loop is false, the job queue is empty, \<open>active_workers\<close> is 0,
  no job is running, and every job that was accepted has had its user function return.
  The counters \<open>size\<close> and \<open>active_workers\<close> are taken not to have wrapped around: the
  queue holds fewer jobs, and fewer jobs are running, than their types count.
\<close>

theorem ThreadPool_check_returns_when_idle:
  fixes s0 s :: "(('w::len) word, ('a::len) word) pool_run"
  assumes "pool_start num = Some s0"
    and "pool_events s0 evs = Some s"
    and "\<not> ThreadPool_check_waits s"
    and "length (q_head (jobs (pool s))) < 2 ^ LENGTH('w)"
    and "size (running s) < 2 ^ LENGTH('a)"
  shows "q_head (jobs (pool s)) = [] \<and> q_size (jobs (pool s)) = 0 \<and> active_workers s = 0
       \<and> running s = {#} \<and> finished s = accepted s"
proof -
  have c: "q_size (jobs (pool s)) = of_nat (length (q_head (jobs (pool s))))
       \<and> active_workers s = of_nat (size (running s))
       \<and> accepted s = mset (q_head (jobs (pool s))) + running s + finished s"
    using counts_pool_events[OF counts_pool_start[OF assms(1)] assms(2)] .
  have z: "q_size (jobs (pool s)) = 0" "active_workers s = 0"
    using assms(3) by (simp_all add: ThreadPool_check_waits_def word_gt_0)
  have "length (q_head (jobs (pool s))) = 0"
    using c z(1) assms(4) of_nat_word_eq_0[of "length (q_head (jobs (pool s)))", where 'w='w]
    by simp
  moreover have "size (running s) = 0"
    using c z(2) assms(5) of_nat_word_eq_0[of "size (running s)", where 'w='a]
    by simp
  ultimately show ?thesis using c z by simp
qed

text \<open>
  A pool of two workers and two jobs of the sizes 100 and 1. After both were submitted,
  taken and finished, \<open>ThreadPool_check\<close> can return: the queue is empty, no worker is
  active and both jobs are finished. After the first \<open>Take\<close> it still waits.
\<close>

theorem ThreadPool_check_returns_when_idle_witness:
  "pool_start 2
     = Some (\<lparr>pool = \<lparr>jobs = \<lparr>q_size = 0, q_head = []\<rparr>, stop = False\<rparr>, active_workers = 0,
              accepted = {#}, running = {#}, finished = {#}\<rparr> :: (32 word, 32 word) pool_run)
   \<and> pool_events
        (\<lparr>pool = \<lparr>jobs = \<lparr>q_size = 0, q_head = []\<rparr>, stop = False\<rparr>, active_workers = 0,
              accepted = {#}, running = {#}, finished = {#}\<rparr> :: (32 word, 32 word) pool_run)
        [Submit 1 10 100, Submit 1 20 1, Take, Take,
         Finish \<lparr>func = 1, arg = 20, job_size = 1\<rparr>, Finish \<lparr>func = 1, arg = 10, job_size = 100\<rparr>]
     = Some \<lparr>pool = \<lparr>jobs = \<lparr>q_size = 0, q_head = []\<rparr>, stop = False\<rparr>, active_workers = 0,
              accepted = {#\<lparr>func = 1, arg = 20, job_size = 1\<rparr>, \<lparr>func = 1, arg = 10, job_size = 100\<rparr>#},
              running = {#},
              finished = {#\<lparr>func = 1, arg = 10, job_size = 100\<rparr>, \<lparr>func = 1, arg = 20, job_size = 1\<rparr>#}\<rparr>
   \<and> \<not> ThreadPool_check_waits
        (\<lparr>pool = \<lparr>jobs = \<lparr>q_size = 0, q_head = []\<rparr>, stop = False\<rparr>, active_workers = 0,
              accepted = {#\<lparr>func = 1, arg = 20, job_size = 1\<rparr>, \<lparr>func = 1, arg = 10, job_size = 100\<rparr>#},
              running = {#},
              finished = {#\<lparr>func = 1, arg = 10, job_size = 100\<rparr>, \<lparr>func = 1, arg = 20, job_size = 1\<rparr>#}\<rparr>
          :: (32 word, 32 word) pool_run)
   \<and> finished
        (\<lparr>pool = \<lparr>jobs = \<lparr>q_size = 0, q_head = []\<rparr>, stop = False\<rparr>, active_workers = 0,
              accepted = {#\<lparr>func = 1, arg = 20, job_size = 1\<rparr>, \<lparr>func = 1, arg = 10, job_size = 100\<rparr>#},
              running = {#},
              finished = {#\<lparr>func = 1, arg = 10, job_size = 100\<rparr>, \<lparr>func = 1, arg = 20, job_size = 1\<rparr>#}\<rparr>
          :: (32 word, 32 word) pool_run)
     = accepted
        (\<lparr>pool = \<lparr>jobs = \<lparr>q_size = 0, q_head = []\<rparr>, stop = False\<rparr>, active_workers = 0,
              accepted = {#\<lparr>func = 1, arg = 20, job_size = 1\<rparr>, \<lparr>func = 1, arg = 10, job_size = 100\<rparr>#},
              running = {#},
              finished = {#\<lparr>func = 1, arg = 10, job_size = 100\<rparr>, \<lparr>func = 1, arg = 20, job_size = 1\<rparr>#}\<rparr>
          :: (32 word, 32 word) pool_run)
   \<and> length (q_head (jobs (pool
        (\<lparr>pool = \<lparr>jobs = \<lparr>q_size = 0, q_head = []\<rparr>, stop = False\<rparr>, active_workers = 0,
              accepted = {#\<lparr>func = 1, arg = 20, job_size = 1\<rparr>, \<lparr>func = 1, arg = 10, job_size = 100\<rparr>#},
              running = {#},
              finished = {#\<lparr>func = 1, arg = 10, job_size = 100\<rparr>, \<lparr>func = 1, arg = 20, job_size = 1\<rparr>#}\<rparr>
          :: (32 word, 32 word) pool_run)))) < 2 ^ LENGTH(32)
   \<and> size (running
        (\<lparr>pool = \<lparr>jobs = \<lparr>q_size = 0, q_head = []\<rparr>, stop = False\<rparr>, active_workers = 0,
              accepted = {#\<lparr>func = 1, arg = 20, job_size = 1\<rparr>, \<lparr>func = 1, arg = 10, job_size = 100\<rparr>#},
              running = {#},
              finished = {#\<lparr>func = 1, arg = 10, job_size = 100\<rparr>, \<lparr>func = 1, arg = 20, job_size = 1\<rparr>#}\<rparr>
          :: (32 word, 32 word) pool_run)) < 2 ^ LENGTH(32)
   \<and> map_option ThreadPool_check_waits (pool_events
        (\<lparr>pool = \<lparr>jobs = \<lparr>q_size = 0, q_head = []\<rparr>, stop = False\<rparr>, active_workers = 0,
              accepted = {#}, running = {#}, finished = {#}\<rparr> :: (32 word, 32 word) pool_run)
        [Submit 1 10 100, Submit 1 20 1, Take]) = Some True"
proof -
  let ?start = "\<lparr>pool = \<lparr>jobs = \<lparr>q_size = 0, q_head = []\<rparr>, stop = False\<rparr>, active_workers = 0,
              accepted = {#}, running = {#}, finished = {#}\<rparr> :: (32 word, 32 word) pool_run"
  let ?fin = "\<lparr>pool = \<lparr>jobs = \<lparr>q_size = 0, q_head = []\<rparr>, stop = False\<rparr>, active_workers = 0,
              accepted = {#\<lparr>func = 1, arg = 20, job_size = 1\<rparr>, \<lparr>func = 1, arg = 10, job_size = 100\<rparr>#},
              running = {#},
              finished = {#\<lparr>func = 1, arg = 10, job_size = 100\<rparr>, \<lparr>func = 1, arg = 20, job_size = 1\<rparr>#}\<rparr>
          :: (32 word, 32 word) pool_run"
  let ?evs = "[Submit 1 10 100, Submit 1 20 1, Take, Take,
         Finish \<lparr>func = 1, arg = 20, job_size = 1\<rparr>, Finish \<lparr>func = 1, arg = 10, job_size = 100\<rparr>]"
  have A: "pool_start 2 = Some ?start"
    by (simp add: pool_start_def ThreadPool_create_def)
  have B: "pool_events ?start ?evs = Some ?fin"
    by (simp add: submit_def Thread_run_take_def Thread_run_finish_def ThreadPool_add_job_def
        ThreadPool_get_job_def add_job_to_queue_def Let_def word_le_nat_alt word_less_nat_alt)
  have C: "\<not> ThreadPool_check_waits ?fin"
    by (simp add: ThreadPool_check_waits_def)
  have F: "length (q_head (jobs (pool ?fin))) < 2 ^ LENGTH(32)"
    by simp
  have G: "size (running ?fin) < 2 ^ LENGTH(32)"
    by simp
  have D: "finished ?fin = accepted ?fin"
    using ThreadPool_check_returns_when_idle[OF A B C F G] by simp
  have E: "map_option ThreadPool_check_waits (pool_events ?start
        [Submit 1 10 100, Submit 1 20 1, Take]) = Some True"
    by (simp add: submit_def Thread_run_take_def ThreadPool_add_job_def
        ThreadPool_get_job_def add_job_to_queue_def Let_def ThreadPool_check_waits_def
        word_le_nat_alt word_less_nat_alt)
  show ?thesis
    by (intro conjI) (fact A, fact B, fact C, fact D, fact F, fact G, fact E)
qed

end
